theory Spec2Isabelle
  imports Complex_Main
begin

section \<open>Data model\<close>

text \<open>
  The knapsack projection of Mongoose (Source/Mongoose_QPNapsack.cpp) is embedded with
  \<^item> \<open>Double\<close> as \<^typ>\<open>real\<close>: the arithmetic is exact, there is no rounding, no NaN
    and no infinity;
  \<^item> \<open>Int\<close> (\<open>SuiteSparse_long\<close>) as \<^typ>\<open>int\<close>; a loop \<open>for (k = 0; k < n; k++)\<close>
    runs over \<open>[0..<nat n]\<close>, so it does nothing for \<open>n \<le> 0\<close>;
  \<^item> a \<open>Double *\<close> or \<open>Int *\<close> array as a list, read with \<open>!\<close>; a pointer that may be
    \<open>NULL\<close> as an \<open>option\<close>;
  \<^item> the memory the ten pointer arguments of \<open>QPnapsack\<close> refer to as one record of six
    separate arrays, passed in and returned updated.
\<close>

datatype error = AssertionFailed | DivisionByZero

record arrays =
  arr_x :: "real list"
  arr_Gw :: "real list"
  arr_FreeSet_status :: "int list option"
  arr_w :: "real list"
  arr_heap1 :: "int list"
  arr_heap2 :: "int list"

text \<open>
  \<open>QPnapup\<close> and \<open>QPnapdown\<close> are called as
  \<open>QPnapup (x, n, lambda, Gw, b, w, heap1, heap2)\<close>; they return the new multiplier and
  leave their results in the three work arrays.
\<close>

type_synonym napfun =
  "real list \<Rightarrow> int \<Rightarrow> real \<Rightarrow> real list \<Rightarrow> real \<Rightarrow> real list \<Rightarrow> int list \<Rightarrow> int list
     \<Rightarrow> real \<times> real list \<times> int list \<times> int list"

text \<open>The print statements \<open>PR (("napsack case 1 up\n"))\<close> name the branch that is taken.\<close>

datatype napcase =
    Case1_up | Case1_nothing
  | Case2_down | Case2_nothing
  | Case3a_down | Case3b_down | Case3c_nothing
  | Case4a_up | Case4b_up | Case4c_nothing
  | Case3d_down | Case3e_nothing
  | Case4d_up | Case4e_nothing

section \<open>Macros\<close>

text \<open>
  Modelled from the spec: the macros \<open>MONGOOSE_MAX2\<close> and \<open>MONGOOSE_MIN2\<close>
  (Mongoose_Internal.hpp is not among the sources). The spec reads them as the clamp of
  the search result at zero: the larger and the smaller of the two arguments.
\<close>

definition MONGOOSE_MAX2 :: "real \<Rightarrow> real \<Rightarrow> real" where
  "MONGOOSE_MAX2 u v = (if u > v then u else v)"

definition MONGOOSE_MIN2 :: "real \<Rightarrow> real \<Rightarrow> real" where
  "MONGOOSE_MIN2 u v = (if u < v then u else v)"

text \<open>
  Modelled from the spec: the macro \<open>ASSERT\<close> (Mongoose_Debug.hpp is not among the
  sources). The spec makes a failed final check of napsack an error that surfaces from
  the entry point, with no partial result: \<open>ASSERT (0)\<close> ends the call with
  \<^const>\<open>AssertionFailed\<close>.
\<close>

definition ASSERT :: "bool \<Rightarrow> error + unit" where
  "ASSERT c = (if c then Inr () else Inl AssertionFailed)"

text \<open>The division of two doubles, with the zero divisor made visible.\<close>

definition divide_checked :: "real \<Rightarrow> real \<Rightarrow> error + real" where
  "divide_checked u v = (if v = 0 then Inl DivisionByZero else Inr (u / v))"

section \<open>checkatx\<close>

text \<open>One pass of the loop of \<open>checkatx\<close>, on the pair \<open>(atx, ok)\<close>.\<close>

definition checkatx_body ::
  "real list \<Rightarrow> real list option \<Rightarrow> nat \<Rightarrow> real \<times> bool \<Rightarrow> real \<times> bool" where
  "checkatx_body x a k st =
     (let (atx, ok) = st;
          ok = (if x ! k < 0 then False else ok);
          ok = (if x ! k > 1 then False else ok)
      in (atx + (case a of None \<Rightarrow> 1 | Some av \<Rightarrow> av ! k) * x ! k, ok))"

definition checkatx :: "real list \<Rightarrow> real list option \<Rightarrow> int \<Rightarrow> real \<Rightarrow> real \<Rightarrow> error + unit" where
  "checkatx x a n lo hi =
     (let (atx, ok) = fold (checkatx_body x a) [0..<nat n] (0, True);
          ok = (if atx < lo - 0.001 then False else ok);
          ok = (if atx > hi + 0.001 then False else ok)
      in if \<not> ok then ASSERT False else Inr ())"

section \<open>QPnapsack\<close>

text \<open>The nested conditional \<open>(xi < 0. ? 0. : xi > 1. ? 1. : xi)\<close>.\<close>

definition clip :: "real \<Rightarrow> real" where
  "clip xi = (if xi < 0 then 0 else if xi > 1 then 1 else xi)"

subsection \<open>The starting guess\<close>

definition guess_body ::
  "real list \<Rightarrow> real list \<Rightarrow> int list \<Rightarrow> nat \<Rightarrow> real \<times> real \<Rightarrow> real \<times> real" where
  "guess_body x Gw fs k st =
     (let (asum, a2sum) = st
      in if fs ! k = 1 then (asum + Gw ! k, a2sum)
         else if fs ! k = 0 then
           (let ai = Gw ! k in (asum + x ! k * ai, a2sum + ai * ai))
         else (asum, a2sum))"

definition starting_guess ::
  "real list \<Rightarrow> int \<Rightarrow> real \<Rightarrow> real \<Rightarrow> real list \<Rightarrow> real \<Rightarrow> int list option \<Rightarrow> error + real" where
  "starting_guess x n lo hi Gw lambda FreeSet_status =
     (case FreeSet_status of
        None \<Rightarrow> Inr lambda
      | Some fs \<Rightarrow>
          if lambda \<noteq> 0 then
            (let (asum, a2sum) =
                   fold (guess_body x Gw fs) [0..<nat n] (if lambda > 0 then - hi else - lo, 0)
             in if a2sum \<noteq> 0 then divide_checked asum a2sum else Inr lambda)
          else Inr lambda)"

subsection \<open>The slopes\<close>

definition slope_body :: "real list \<Rightarrow> real list \<Rightarrow> real \<Rightarrow> nat \<Rightarrow> real \<Rightarrow> real" where
  "slope_body x Gw lambda k slope =
     (let xi = x ! k - Gw ! k * lambda
      in if xi \<ge> 1 then slope + Gw ! k
         else if xi > 0 then slope + Gw ! k * xi
         else slope)"

definition initial_slope :: "real list \<Rightarrow> int \<Rightarrow> real list \<Rightarrow> real \<Rightarrow> real" where
  "initial_slope x n Gw lambda = fold (slope_body x Gw lambda) [0..<nat n] 0"

definition slope0_body :: "real list \<Rightarrow> real list \<Rightarrow> nat \<Rightarrow> real \<Rightarrow> real" where
  "slope0_body x Gw k slope0 =
     (let xi = x ! k
      in if xi \<ge> 1 then slope0 + Gw ! k
         else if xi > 0 then slope0 + Gw ! k * xi
         else slope0)"

definition slope_at_zero :: "real list \<Rightarrow> int \<Rightarrow> real list \<Rightarrow> real" where
  "slope_at_zero x n Gw = fold (slope0_body x Gw) [0..<nat n] 0"

subsection \<open>The case dispatch\<close>

text \<open>A call of one of the two searches on the arrays, towards the target \<open>b\<close>.\<close>

definition call_nap :: "napfun \<Rightarrow> arrays \<Rightarrow> int \<Rightarrow> real \<Rightarrow> real \<Rightarrow> real \<times> arrays" where
  "call_nap f m n lambda b =
     (let (l, w', h1', h2') =
            f (arr_x m) n lambda (arr_Gw m) b (arr_w m) (arr_heap1 m) (arr_heap2 m)
      in (l, m\<lparr>arr_w := w', arr_heap1 := h1', arr_heap2 := h2'\<rparr>))"

definition dispatch ::
  "napfun \<Rightarrow> napfun \<Rightarrow> arrays \<Rightarrow> int \<Rightarrow> real \<Rightarrow> real \<Rightarrow> real \<Rightarrow> napcase \<times> real \<times> arrays" where
  "dispatch napup napdown m n lo hi lambda =
     (let slope = initial_slope (arr_x m) n (arr_Gw m) lambda
      in
      if lambda \<ge> 0 \<and> slope \<ge> hi then
        (if slope > hi then
           (let (lambda, m) = call_nap napup m n lambda hi
            in (Case1_up, MONGOOSE_MAX2 0 lambda, m))
         else (Case1_nothing, lambda, m))
      else if lambda \<le> 0 \<and> slope \<le> lo then
        (if slope < lo then
           (let (lambda, m) = call_nap napdown m n lambda lo
            in (Case2_down, MONGOOSE_MIN2 lambda 0, m))
         else (Case2_nothing, lambda, m))
      else
        if lambda \<noteq> 0 then
          (let slope0 = slope_at_zero (arr_x m) n (arr_Gw m)
           in
           if lambda \<ge> 0 \<and> slope < hi then
             (if slope0 < lo then
                (let (lambda, m) = call_nap napdown m n 0 lo
                 in (Case3a_down, if lambda > 0 then 0 else lambda, m))
              else if slope0 > hi then
                (let (lambda, m) = call_nap napdown m n lambda hi
                 in (Case3b_down, if lambda < 0 then 0 else lambda, m))
              else (Case3c_nothing, 0, m))
           else
             (if slope0 > hi then
                (let (lambda, m) = call_nap napup m n 0 hi
                 in (Case4a_up, MONGOOSE_MAX2 lambda 0, m))
              else if slope0 < lo then
                (let (lambda, m) = call_nap napup m n lambda lo
                 in (Case4b_up, MONGOOSE_MIN2 0 lambda, m))
              else (Case4c_nothing, 0, m)))
        else
          if slope < hi then
            (if slope < lo then
               (let (lambda, m) = call_nap napdown m n lambda lo
                in (Case3d_down, MONGOOSE_MIN2 0 lambda, m))
             else (Case3e_nothing, lambda, m))
          else
            (if slope > hi then
               (let (lambda, m) = call_nap napup m n lambda hi
                in (Case4d_up, MONGOOSE_MAX2 lambda 0, m))
             else (Case4e_nothing, lambda, m)))"

subsection \<open>Replacing x by x (lambda)\<close>

definition replace_x :: "real list \<Rightarrow> int \<Rightarrow> real list \<Rightarrow> real \<Rightarrow> real list" where
  "replace_x x n Gw lambda =
     (if lambda = 0 then
        fold (\<lambda>k x. let xi = x ! k in x[k := clip xi]) [0..<nat n] x
      else
        fold (\<lambda>k x. let xi = x ! k - Gw ! k * lambda in x[k := clip xi]) [0..<nat n] x)"

subsection \<open>The whole function\<close>

text \<open>
  \<open>QPnapsack (x, n, lo, hi, Gw, Lambda, FreeSet_status, w, heap1, heap2)\<close>: the six arrays
  are the record \<open>m\<close>; the two searches it calls are parameters, their code
  (Mongoose_QPNapUp.cpp, Mongoose_QPNapDown.cpp) not being among the sources. The result
  is the returned lambda with the arrays as the call leaves them.
\<close>

definition QPnapsack ::
  "napfun \<Rightarrow> napfun \<Rightarrow> arrays \<Rightarrow> int \<Rightarrow> real \<Rightarrow> real \<Rightarrow> real \<Rightarrow> error + (real \<times> arrays)" where
  "QPnapsack napup napdown m n lo hi Lambda =
     (case starting_guess (arr_x m) n lo hi (arr_Gw m) Lambda (arr_FreeSet_status m) of
        Inl e \<Rightarrow> Inl e
      | Inr lambda \<Rightarrow>
          (let (c, lambda, m) = dispatch napup napdown m n lo hi lambda;
               m = m\<lparr>arr_x := replace_x (arr_x m) n (arr_Gw m) lambda\<rparr>
           in case checkatx (arr_x m) (Some (arr_Gw m)) n lo hi of
                Inl e \<Rightarrow> Inl e
              | Inr u \<Rightarrow> Inr (lambda, m)))"

text \<open>The branch of the dispatch that a call takes.\<close>

definition QPnapsack_case ::
  "napfun \<Rightarrow> napfun \<Rightarrow> arrays \<Rightarrow> int \<Rightarrow> real \<Rightarrow> real \<Rightarrow> real \<Rightarrow> error + napcase" where
  "QPnapsack_case napup napdown m n lo hi Lambda =
     (case starting_guess (arr_x m) n lo hi (arr_Gw m) Lambda (arr_FreeSet_status m) of
        Inl e \<Rightarrow> Inl e
      | Inr lambda \<Rightarrow> Inr (fst (dispatch napup napdown m n lo hi lambda)))"

section \<open>The quantities of the specification\<close>

text \<open>The weight of index \<open>k\<close>: one when the weight vector is \<open>NULL\<close>.\<close>

definition weight :: "real list option \<Rightarrow> nat \<Rightarrow> real" where
  "weight a k = (case a of None \<Rightarrow> 1 | Some av \<Rightarrow> av ! k)"

text \<open>The weighted sum \<open>a'x\<close> over the first \<open>n\<close> entries.\<close>

definition atx_sum :: "real list option \<Rightarrow> real list \<Rightarrow> nat \<Rightarrow> real" where
  "atx_sum a x n = sum_list (map (\<lambda>k. weight a k * x ! k) [0..<n])"

text \<open>
  The function of the specification, \<open>s(\<lambda>) = a' clip (y - \<lambda> a, 0, 1)\<close>, over the
  first \<open>n\<close> entries.
\<close>

definition s_lambda :: "real list \<Rightarrow> real list \<Rightarrow> nat \<Rightarrow> real \<Rightarrow> real" where
  "s_lambda y a n lam = sum_list (map (\<lambda>k. a ! k * clip (y ! k - lam * a ! k)) [0..<n])"

text \<open>The sum of the first \<open>n\<close> weights: the largest value \<open>a'x\<close> takes on the box.\<close>

definition total_weight :: "real list \<Rightarrow> nat \<Rightarrow> real" where
  "total_weight a n = sum_list (map (\<lambda>k. a ! k) [0..<n])"

text \<open>The feasible set \<open>{z : 0 \<le> z \<le> 1, lo \<le> a'z \<le> hi}\<close> and the objective \<open>1/2 ||x - y||^2\<close>.\<close>

definition feasible :: "real list \<Rightarrow> nat \<Rightarrow> real \<Rightarrow> real \<Rightarrow> real list \<Rightarrow> bool" where
  "feasible a n lo hi z \<longleftrightarrow>
     (\<forall>k < n. 0 \<le> z ! k \<and> z ! k \<le> 1) \<and>
     lo \<le> atx_sum (Some a) z n \<and> atx_sum (Some a) z n \<le> hi"

definition half_sq_dist :: "nat \<Rightarrow> real list \<Rightarrow> real list \<Rightarrow> real" where
  "half_sq_dist n x y = 1 / 2 * sum_list (map (\<lambda>k. (x ! k - y ! k)\<^sup>2) [0..<n])"

section \<open>The two searches\<close>

text \<open>
  Modelled from the spec: what \<open>QPnapup\<close> and \<open>QPnapdown\<close> return
  (Mongoose_QPNapUp.cpp and Mongoose_QPNapDown.cpp are not among the sources). The spec
  has them advance in one direction until the slope crosses the target: started at
  \<open>lam\<close> where \<open>s\<close> is still above the target \<open>b\<close>, \<open>napup\<close> returns a multiplier with
  \<open>s = b\<close>, which exists for strictly positive weights as soon as \<open>0 \<le> b\<close>; started
  where \<open>s\<close> is still below \<open>b\<close>, \<open>napdown\<close> returns one, which exists as soon as \<open>b\<close> is
  at most the sum of the weights.
\<close>

definition napup_contract :: "napfun \<Rightarrow> bool" where
  "napup_contract f \<longleftrightarrow>
     (\<forall>y n lam a b w h1 h2.
        (\<forall>k < nat n. 0 < a ! k) \<and> 0 \<le> b \<and> b < s_lambda y a (nat n) lam \<longrightarrow>
        s_lambda y a (nat n) (fst (f y n lam a b w h1 h2)) = b)"

definition napdown_contract :: "napfun \<Rightarrow> bool" where
  "napdown_contract f \<longleftrightarrow>
     (\<forall>y n lam a b w h1 h2.
        (\<forall>k < nat n. 0 < a ! k) \<and> b \<le> total_weight a (nat n) \<and> s_lambda y a (nat n) lam < b \<longrightarrow>
        s_lambda y a (nat n) (fst (f y n lam a b w h1 h2)) = b)"

text \<open>
  Modelled from the spec: the searches themselves (Mongoose_QPNapUp.cpp and
  Mongoose_QPNapDown.cpp are not among the sources). The spec has them walk the break
  points, the values of lambda at which a variable hits 0 or 1, in one direction until
  the slope crosses the target. The break points of index \<open>k\<close> are \<open>y[k] / a[k]\<close>, where
  \<open>x[k]\<close> reaches 0, and \<open>(y[k] - 1) / a[k]\<close>, where it reaches 1; between two
  neighbouring break points \<open>s\<close> is a line, and the walk ends on the segment where that
  line meets the target. The heap of the spec only orders the candidates: the model
  takes the nearest one directly and leaves the work arrays as they are.
\<close>

definition breakpts :: "real list \<Rightarrow> real list \<Rightarrow> nat \<Rightarrow> real list" where
  "breakpts y a n = concat (map (\<lambda>k. [y ! k / a ! k, (y ! k - 1) / a ! k]) [0..<n])"

function napup_walk :: "real list \<Rightarrow> real list \<Rightarrow> nat \<Rightarrow> real \<Rightarrow> real \<Rightarrow> real" where
  "napup_walk y a n b lam =
     (let cand = filter (\<lambda>t. lam < t) (breakpts y a n)
      in if s_lambda y a n lam \<le> b \<or> cand = [] then lam
         else
           (let nxt = Min (set cand)
            in if s_lambda y a n nxt \<le> b then
                 lam + (s_lambda y a n lam - b) * (nxt - lam)
                         / (s_lambda y a n lam - s_lambda y a n nxt)
               else napup_walk y a n b nxt))"
  by pat_completeness auto
termination
proof (relation "measure (\<lambda>(y, a, n, b, lam). length (filter (\<lambda>t. lam < t) (breakpts y a n)))",
    goal_cases)
  case 1
  show ?case by simp
next
  case (2 y a n b lam cand nxt)
  then have ne: "cand \<noteq> []" and nxt: "nxt = Min (set cand)"
    and cand: "cand = filter (\<lambda>t. lam < t) (breakpts y a n)" by auto
  from ne have mem: "nxt \<in> set cand" unfolding nxt by (intro Min_in) auto
  then have gt: "lam < nxt" by (simp add: cand)
  have "filter (\<lambda>t. nxt < t) (breakpts y a n) = filter (\<lambda>t. nxt < t) cand"
    using gt by (auto simp: cand intro: filter_cong)
  moreover have "length (filter (\<lambda>t. nxt < t) cand) < length cand"
    using mem by (intro length_filter_less [of nxt]) auto
  ultimately show ?case by (simp add: cand)
qed

function napdown_walk :: "real list \<Rightarrow> real list \<Rightarrow> nat \<Rightarrow> real \<Rightarrow> real \<Rightarrow> real" where
  "napdown_walk y a n b lam =
     (let cand = filter (\<lambda>t. t < lam) (breakpts y a n)
      in if s_lambda y a n lam \<ge> b \<or> cand = [] then lam
         else
           (let nxt = Max (set cand)
            in if s_lambda y a n nxt \<ge> b then
                 lam - (b - s_lambda y a n lam) * (lam - nxt)
                         / (s_lambda y a n nxt - s_lambda y a n lam)
               else napdown_walk y a n b nxt))"
  by pat_completeness auto
termination
proof (relation "measure (\<lambda>(y, a, n, b, lam). length (filter (\<lambda>t. t < lam) (breakpts y a n)))",
    goal_cases)
  case 1
  show ?case by simp
next
  case (2 y a n b lam cand nxt)
  then have ne: "cand \<noteq> []" and nxt: "nxt = Max (set cand)"
    and cand: "cand = filter (\<lambda>t. t < lam) (breakpts y a n)" by auto
  from ne have mem: "nxt \<in> set cand" unfolding nxt by (intro Max_in) auto
  then have gt: "nxt < lam" by (simp add: cand)
  have "filter (\<lambda>t. t < nxt) (breakpts y a n) = filter (\<lambda>t. t < nxt) cand"
    using gt by (auto simp: cand intro: filter_cong)
  moreover have "length (filter (\<lambda>t. t < nxt) cand) < length cand"
    using mem by (intro length_filter_less [of nxt]) auto
  ultimately show ?case by (simp add: cand)
qed

declare napup_walk.simps [simp del] napdown_walk.simps [simp del]

definition QPnapup :: napfun where
  "QPnapup x n lambda a b w heap1 heap2 = (napup_walk x a (nat n) b lambda, w, heap1, heap2)"

definition QPnapdown :: napfun where
  "QPnapdown x n lambda a b w heap1 heap2 = (napdown_walk x a (nat n) b lambda, w, heap1, heap2)"

section \<open>The cut metrics of a partition\<close>

text \<open>
  Modelled from the spec: the computation of the metrics of a partition result (the code
  that fills \<open>W0\<close>, \<open>W1\<close> and \<open>imbalance\<close> of \<open>Graph\<close>, and \<open>w0\<close>, \<open>w1\<close> and \<open>imbalance\<close>
  of \<open>EdgeCut\<close>, is not among the sources; Mongoose.hpp and Mongoose_EdgeCut.hpp only
  declare the fields). The spec: \<open>partition[v]\<close> is the side of vertex \<open>v\<close>; \<open>W0\<close> and
  \<open>W1\<close> are the sums of the vertex weights of the two sides;
  \<open>imbalance = |0.5 - W0 / (W0 + W1)|\<close>.
\<close>

record cut_metrics =
  W0 :: real
  W1 :: real
  imbalance :: real

definition side_weight :: "bool list \<Rightarrow> real list \<Rightarrow> bool \<Rightarrow> real" where
  "side_weight part w side =
     sum_list (map (\<lambda>v. w ! v) (filter (\<lambda>v. part ! v = side) [0..<length part]))"

definition metrics_of :: "bool list \<Rightarrow> real list \<Rightarrow> cut_metrics" where
  "metrics_of part w =
     (let s0 = side_weight part w False;
          s1 = side_weight part w True
      in \<lparr>W0 = s0, W1 = s1, imbalance = \<bar>0.5 - s0 / (s0 + s1)\<bar>\<rparr>)"

section \<open>A worked input\<close>

text \<open>Two entries at \<open>0.6\<close> with unit weights, to be projected onto \<open>a'x = 1\<close>.\<close>

definition example_arrays :: arrays where
  "example_arrays = \<lparr>arr_x = [3 / 5, 3 / 5], arr_Gw = [1, 1], arr_FreeSet_status = None,
     arr_w = [], arr_heap1 = [], arr_heap2 = []\<rparr>"

text \<open>
  One entry at \<open>2\<close> with unit weight, to be projected onto \<open>a'x = 1\<close> from the initial
  lambda 1: the slope there is already 1.
\<close>

definition kept_arrays :: arrays where
  "kept_arrays = \<lparr>arr_x = [2], arr_Gw = [1], arr_FreeSet_status = None,
     arr_w = [], arr_heap1 = [], arr_heap2 = []\<rparr>"

text \<open>
  Two entries at \<open>0.75\<close> with unit weights, to be projected onto \<open>a'x = 1\<close> from the
  initial lambda \<open>0.5\<close>: the slope there is below the bound, the slope at zero above it.
\<close>

definition warm_arrays :: arrays where
  "warm_arrays = \<lparr>arr_x = [3 / 4, 3 / 4], arr_Gw = [1, 1], arr_FreeSet_status = None,
     arr_w = [], arr_heap1 = [], arr_heap2 = []\<rparr>"

text \<open>
  One entry at \<open>0.5\<close> with unit weight and the bounds \<open>lo = hi = 5\<close>, which no \<open>x\<close> in the
  box meets.
\<close>

definition infeasible_arrays :: arrays where
  "infeasible_arrays = \<lparr>arr_x = [1 / 2], arr_Gw = [1], arr_FreeSet_status = None,
     arr_w = [], arr_heap1 = [], arr_heap2 = []\<rparr>"

section \<open>Loops as sums\<close>

lemma fold_add_sum_list:
  "fold (\<lambda>k acc. acc + f k) ks (t::real) = t + sum_list (map f ks)"
  by (induction ks arbitrary: t) (simp_all add: add.assoc)

lemma checkatx_body_pair:
  "checkatx_body x a k (t, ok) = (t + weight a k * x ! k, ok \<and> 0 \<le> x ! k \<and> x ! k \<le> 1)"
  by (auto simp: checkatx_body_def weight_def)

lemma fold_checkatx_body:
  "fold (checkatx_body x a) ks (t, ok) =
     (t + sum_list (map (\<lambda>k. weight a k * x ! k) ks),
      ok \<and> (\<forall>k \<in> set ks. 0 \<le> x ! k \<and> x ! k \<le> 1))"
proof (induction ks arbitrary: t ok)
  case Nil
  show ?case by simp
next
  case (Cons k ks)
  show ?case
    by (simp add: checkatx_body_pair Cons.IH add.assoc conj_assoc)
qed

lemma slope_body_clip:
  "slope_body x Gw lambda k slope = slope + Gw ! k * clip (x ! k - lambda * Gw ! k)"
  by (simp add: slope_body_def clip_def Let_def mult.commute)

lemma slope0_body_clip:
  "slope0_body x Gw k slope = slope + Gw ! k * clip (x ! k - 0 * Gw ! k)"
  by (simp add: slope0_body_def clip_def Let_def)

lemma initial_slope_eq: "initial_slope x n Gw lambda = s_lambda x Gw (nat n) lambda"
proof -
  have "slope_body x Gw lambda = (\<lambda>k acc. acc + Gw ! k * clip (x ! k - lambda * Gw ! k))"
    by (intro ext) (rule slope_body_clip)
  then show ?thesis
    by (simp add: initial_slope_def s_lambda_def fold_add_sum_list)
qed

lemma slope_at_zero_eq: "slope_at_zero x n Gw = s_lambda x Gw (nat n) 0"
proof -
  have "slope0_body x Gw = (\<lambda>k acc. acc + Gw ! k * clip (x ! k - 0 * Gw ! k))"
    by (intro ext) (rule slope0_body_clip)
  then show ?thesis
    by (simp add: slope_at_zero_def s_lambda_def fold_add_sum_list)
qed

lemma fold_update_upt:
  assumes "j \<le> length x"
  shows "length (fold (\<lambda>k x. x[k := g (x ! k) k]) [0..<j] x) = length x \<and>
         (\<forall>k < j. fold (\<lambda>k x. x[k := g (x ! k) k]) [0..<j] x ! k = g (x ! k) k) \<and>
         (\<forall>k \<ge> j. fold (\<lambda>k x. x[k := g (x ! k) k]) [0..<j] x ! k = x ! k)"
  using assms
proof (induction j)
  case 0
  show ?case by simp
next
  case (Suc j)
  then have IH: "length (fold (\<lambda>k x. x[k := g (x ! k) k]) [0..<j] x) = length x"
    "\<And>k. k < j \<Longrightarrow> fold (\<lambda>k x. x[k := g (x ! k) k]) [0..<j] x ! k = g (x ! k) k"
    "\<And>k. k \<ge> j \<Longrightarrow> fold (\<lambda>k x. x[k := g (x ! k) k]) [0..<j] x ! k = x ! k"
    by simp_all
  from Suc.prems have jl: "j < length x" by simp
  show ?case
    using jl by (auto simp: IH nth_list_update less_Suc_eq)
qed

lemma replace_x_props:
  assumes "nat n \<le> length x"
  shows "length (replace_x x n Gw l) = length x"
    and "k < nat n \<Longrightarrow> replace_x x n Gw l ! k = clip (x ! k - l * Gw ! k)"
    and "k \<ge> nat n \<Longrightarrow> replace_x x n Gw l ! k = x ! k"
  using fold_update_upt [OF assms, of "\<lambda>v k. clip v"]
    fold_update_upt [OF assms, of "\<lambda>v k. clip (v - Gw ! k * l)"]
  by (simp_all add: replace_x_def Let_def mult.commute)

lemma guess_body_snd:
  "fs ! k \<noteq> 0 \<Longrightarrow> snd (guess_body x Gw fs k (s, t)) = t"
  by (simp add: guess_body_def)

lemma fold_guess_body_snd:
  "\<forall>k \<in> set ks. fs ! k \<noteq> 0 \<Longrightarrow> snd (fold (guess_body x Gw fs) ks (s, t)) = t"
proof (induction ks arbitrary: s t)
  case Nil
  show ?case by simp
next
  case (Cons k ks)
  obtain s' t' where st: "guess_body x Gw fs k (s, t) = (s', t')"
    by (cases "guess_body x Gw fs k (s, t)")
  with Cons.prems guess_body_snd [of fs k x Gw s t] have "t' = t" by simp
  with Cons st show ?case by simp
qed

lemma starting_guess_total:
  "\<exists>l. starting_guess x n lo hi Gw Lambda fso = Inr l"
  by (auto simp: starting_guess_def divide_checked_def Let_def split: option.splits prod.splits)

lemma sum_list_cong_set:
  fixes f g :: "nat \<Rightarrow> real"
  assumes "\<And>k. k \<in> set ks \<Longrightarrow> f k = g k"
  shows "sum_list (map f ks) = sum_list (map g ks)"
  using assms by (induction ks) simp_all

lemma checkatx_Inr_iff:
  "checkatx x a n lo hi = Inr () \<longleftrightarrow>
     (\<forall>k < nat n. 0 \<le> x ! k \<and> x ! k \<le> 1) \<and>
     lo - 1 / 1000 \<le> atx_sum a x (nat n) \<and> atx_sum a x (nat n) \<le> hi + 1 / 1000"
  by (auto simp: checkatx_def fold_checkatx_body atx_sum_def ASSERT_def Let_def)

section \<open>The dispatch and the arrays\<close>

lemma call_nap_frame:
  "call_nap f m n lambda b = (l, m') \<Longrightarrow>
     m'\<lparr>arr_w := arr_w m, arr_heap1 := arr_heap1 m, arr_heap2 := arr_heap2 m\<rparr> = m"
  by (auto simp: call_nap_def split: prod.splits)

lemma dispatch_frame:
  "dispatch napup napdown m n lo hi lambda = (c, l, m') \<Longrightarrow>
     m'\<lparr>arr_w := arr_w m, arr_heap1 := arr_heap1 m, arr_heap2 := arr_heap2 m\<rparr> = m"
  unfolding dispatch_def Let_def
  by (auto split: if_splits prod.splits dest: call_nap_frame)

lemma dispatch_fields:
  assumes "dispatch napup napdown m n lo hi lambda = (c, l, m')"
  shows "arr_x m' = arr_x m" "arr_Gw m' = arr_Gw m"
    "arr_FreeSet_status m' = arr_FreeSet_status m"
proof -
  let ?r = "m'\<lparr>arr_w := arr_w m, arr_heap1 := arr_heap1 m, arr_heap2 := arr_heap2 m\<rparr>"
  have eq: "?r = m" by (rule dispatch_frame [OF assms])
  have "arr_x ?r = arr_x m'" "arr_Gw ?r = arr_Gw m'"
    "arr_FreeSet_status ?r = arr_FreeSet_status m'" by simp_all
  then show "arr_x m' = arr_x m" "arr_Gw m' = arr_Gw m"
    "arr_FreeSet_status m' = arr_FreeSet_status m"
    by (simp_all only: eq)
qed

lemma dispatch_sign:
  "dispatch napup napdown m n lo hi lambda = (c, l, m') \<Longrightarrow>
     (c \<in> {Case1_up, Case3b_down, Case4a_up, Case4d_up} \<longrightarrow> 0 \<le> l) \<and>
     (c \<in> {Case2_down, Case3a_down, Case4b_up, Case3d_down} \<longrightarrow> l \<le> 0)"
  unfolding dispatch_def Let_def
  by (auto simp: MONGOOSE_MAX2_def MONGOOSE_MIN2_def split: if_splits prod.splits)

lemma QPnapsack_InrD:
  assumes "QPnapsack napup napdown m n lo hi Lambda = Inr (l, m')"
  obtains lam1 c m1 where
    "starting_guess (arr_x m) n lo hi (arr_Gw m) Lambda (arr_FreeSet_status m) = Inr lam1"
    "dispatch napup napdown m n lo hi lam1 = (c, l, m1)"
    "m' = m1\<lparr>arr_x := replace_x (arr_x m1) n (arr_Gw m1) l\<rparr>"
    "checkatx (arr_x m') (Some (arr_Gw m')) n lo hi = Inr ()"
  using assms unfolding QPnapsack_def Let_def
  by (auto split: sum.splits prod.splits)

section \<open>The function s\<close>

lemma clip_bounds: "0 \<le> clip t" "clip t \<le> 1"
  by (simp_all add: clip_def)

lemma clip_mono: "s \<le> t \<Longrightarrow> clip s \<le> clip t"
  by (simp add: clip_def)

lemma clip_id: "0 \<le> t \<Longrightarrow> t \<le> 1 \<Longrightarrow> clip t = t"
  by (simp add: clip_def)

lemma clip_low: "t \<le> 0 \<Longrightarrow> clip t = 0"
  by (simp add: clip_def)

lemma clip_high: "1 \<le> t \<Longrightarrow> clip t = 1"
  by (simp add: clip_def)

lemma s_lambda_antimono:
  assumes "\<forall>k < n. 0 \<le> a ! k" "l1 \<le> l2"
  shows "s_lambda y a n l2 \<le> s_lambda y a n l1"
  unfolding s_lambda_def
proof (rule sum_list_mono)
  fix k assume "k \<in> set [0..<n]"
  then have a: "0 \<le> a ! k" using assms(1) by simp
  with assms(2) have "y ! k - l2 * a ! k \<le> y ! k - l1 * a ! k"
    by (simp add: mult_right_mono)
  then show "a ! k * clip (y ! k - l2 * a ! k) \<le> a ! k * clip (y ! k - l1 * a ! k)"
    using a by (intro mult_left_mono clip_mono)
qed

lemma s_lambda_less_imp:
  assumes "\<forall>k < n. 0 < a ! k" "s_lambda y a n r < s_lambda y a n t"
  shows "t < r"
proof (rule ccontr)
  assume "\<not> t < r"
  then have "r \<le> t" by simp
  moreover from assms(1) have "\<forall>k < n. 0 \<le> a ! k" by (simp add: less_imp_le)
  ultimately have "s_lambda y a n t \<le> s_lambda y a n r" by (rule s_lambda_antimono [rotated])
  with assms(2) show False by simp
qed

lemma s_lambda_nonneg:
  assumes "\<forall>k < n. 0 \<le> a ! k"
  shows "0 \<le> s_lambda y a n l"
  unfolding s_lambda_def
  using assms by (intro sum_list_nonneg) (auto simp: clip_bounds)

lemma s_lambda_le_total:
  assumes "\<forall>k < n. 0 \<le> a ! k"
  shows "s_lambda y a n l \<le> total_weight a n"
  unfolding s_lambda_def total_weight_def
proof (rule sum_list_mono)
  fix k assume "k \<in> set [0..<n]"
  then have "0 \<le> a ! k" using assms by simp
  then have "a ! k * clip (y ! k - l * a ! k) \<le> a ! k * 1"
    by (intro mult_left_mono clip_bounds)
  then show "a ! k * clip (y ! k - l * a ! k) \<le> a ! k" by simp
qed

lemma atx_sum_clip:
  assumes "\<forall>k < n. x ! k = clip (y ! k - l * a ! k)"
  shows "atx_sum (Some a) x n = s_lambda y a n l"
  unfolding atx_sum_def s_lambda_def weight_def option.case
  using assms by (intro sum_list_cong_set) simp

section \<open>The searches meet their contract\<close>

lemma breakpts_mem:
  assumes "k < n"
  shows "y ! k / a ! k \<in> set (breakpts y a n)" "(y ! k - 1) / a ! k \<in> set (breakpts y a n)"
  using assms by (auto simp: breakpts_def)

lemma clip_affine:
  assumes a: "0 < a" and uv: "u < v" and r: "u \<le> r" "r \<le> v"
    and p0: "\<not> (u < y / a \<and> y / a < v)"
    and p1: "\<not> (u < (y - 1) / a \<and> (y - 1) / a < v)"
  shows "clip (y - r * a) =
         clip (y - u * a) + (r - u) / (v - u) * (clip (y - v * a) - clip (y - u * a))"
proof -
  have ua: "u * a \<le> r * a" and ra: "r * a \<le> v * a"
    using a r by (simp_all add: mult_right_mono)
  have lt: "(y - 1) / a < y / a" using a by (simp add: divide_strict_right_mono)
  consider (A) "v \<le> (y - 1) / a" | (B) "(y - 1) / a \<le> u" "v \<le> y / a" | (C) "y / a \<le> u"
    using p0 p1 lt by linarith
  then show ?thesis
  proof cases
    case A
    then have "v * a \<le> y - 1" using a by (simp add: pos_le_divide_eq)
    with ua ra have "1 \<le> y - r * a" "1 \<le> y - u * a" "1 \<le> y - v * a" by linarith+
    then show ?thesis by (simp add: clip_high)
  next
    case B
    then have "y - 1 \<le> u * a" "v * a \<le> y"
      using a by (simp_all add: pos_le_divide_eq pos_divide_le_eq)
    with ua ra have b: "0 \<le> y - r * a" "y - r * a \<le> 1" "0 \<le> y - u * a" "y - u * a \<le> 1"
      "0 \<le> y - v * a" "y - v * a \<le> 1" by linarith+
    have "(r - u) / (v - u) * ((y - v * a) - (y - u * a)) = - ((r - u) * a)"
      using uv by (simp add: field_simps)
    then show ?thesis
      using b by (simp add: clip_id algebra_simps)
  next
    case C
    then have "y \<le> u * a" using a by (simp add: pos_divide_le_eq)
    with ua ra have "y - r * a \<le> 0" "y - u * a \<le> 0" "y - v * a \<le> 0" by linarith+
    then show ?thesis by (simp add: clip_low)
  qed
qed

lemma sum_list_affine:
  fixes f g h :: "nat \<Rightarrow> real"
  assumes "\<forall>k \<in> set ks. f k = g k + c * (h k - g k)"
  shows "sum_list (map f ks) = sum_list (map g ks) + c * (sum_list (map h ks) - sum_list (map g ks))"
  using assms by (induction ks) (simp_all add: algebra_simps)

lemma s_lambda_affine:
  assumes a: "\<forall>k < n. 0 < a ! k" and uv: "u < v" and r: "u \<le> r" "r \<le> v"
    and gap: "\<forall>t \<in> set (breakpts y a n). \<not> (u < t \<and> t < v)"
  shows "s_lambda y a n r =
         s_lambda y a n u + (r - u) / (v - u) * (s_lambda y a n v - s_lambda y a n u)"
proof -
  define c where "c = (r - u) / (v - u)"
  have "sum_list (map (\<lambda>k. a ! k * clip (y ! k - r * a ! k)) [0..<n]) =
        sum_list (map (\<lambda>k. a ! k * clip (y ! k - u * a ! k)) [0..<n]) +
        c * (sum_list (map (\<lambda>k. a ! k * clip (y ! k - v * a ! k)) [0..<n]) -
             sum_list (map (\<lambda>k. a ! k * clip (y ! k - u * a ! k)) [0..<n]))"
  proof (rule sum_list_affine, rule ballI)
    fix k assume "k \<in> set [0..<n]"
    then have k: "k < n" by simp
    have "clip (y ! k - r * a ! k) = clip (y ! k - u * a ! k)
            + (r - u) / (v - u) * (clip (y ! k - v * a ! k) - clip (y ! k - u * a ! k))"
      using a k uv r gap breakpts_mem [OF k, of y a]
      by (intro clip_affine) auto
    then have "clip (y ! k - r * a ! k) = clip (y ! k - u * a ! k)
            + c * (clip (y ! k - v * a ! k) - clip (y ! k - u * a ! k))"
      by (simp only: c_def)
    then have "a ! k * clip (y ! k - r * a ! k) = a ! k * (clip (y ! k - u * a ! k)
            + c * (clip (y ! k - v * a ! k) - clip (y ! k - u * a ! k)))"
      by simp
    also have "\<dots> = a ! k * clip (y ! k - u * a ! k) +
         c * (a ! k * clip (y ! k - v * a ! k) - a ! k * clip (y ! k - u * a ! k))"
      by (simp add: algebra_simps)
    finally show "a ! k * clip (y ! k - r * a ! k) =
         a ! k * clip (y ! k - u * a ! k) +
         c * (a ! k * clip (y ! k - v * a ! k) - a ! k * clip (y ! k - u * a ! k))" .
  qed
  then show ?thesis by (simp only: s_lambda_def c_def)
qed

lemma root_up:
  fixes su sv b u v :: real
  assumes "sv \<le> b" "b < su" "u < v"
  defines "r \<equiv> u + (su - b) * (v - u) / (su - sv)"
  shows "u \<le> r" "r \<le> v" "su + (r - u) / (v - u) * (sv - su) = b"
proof -
  define q where "q = (su - b) / (su - sv)"
  have d: "0 < su - sv" using assms by simp
  have q: "0 \<le> q" "q \<le> 1"
    using assms d by (simp_all add: q_def field_simps)
  have r: "r = u + q * (v - u)" by (simp add: r_def q_def)
  have "0 \<le> q * (v - u)" using q(1) assms(3) by (intro mult_nonneg_nonneg) simp_all
  then show "u \<le> r" unfolding r by linarith
  have "q * (v - u) \<le> v - u"
    using mult_right_mono [of q 1 "v - u"] q(2) assms(3) by simp
  then show "r \<le> v" unfolding r by linarith
  have "(r - u) / (v - u) = q"
    using assms(3) unfolding r by simp
  moreover have "su + q * (sv - su) = b"
    using d by (simp add: q_def field_simps)
  ultimately show "su + (r - u) / (v - u) * (sv - su) = b" by simp
qed

lemma root_down:
  fixes su sv b u v :: real
  assumes "b \<le> su" "sv < b" "u < v"
  defines "r \<equiv> v - (b - sv) * (v - u) / (su - sv)"
  shows "u \<le> r" "r \<le> v" "su + (r - u) / (v - u) * (sv - su) = b"
proof -
  define q where "q = (b - sv) / (su - sv)"
  have d: "0 < su - sv" using assms by simp
  have q: "0 \<le> q" "q \<le> 1"
    using assms d by (simp_all add: q_def field_simps)
  have r: "r = v - q * (v - u)" by (simp add: r_def q_def)
  have "0 \<le> q * (v - u)" using q(1) assms(3) by (intro mult_nonneg_nonneg) simp_all
  then show "r \<le> v" unfolding r by linarith
  have "q * (v - u) \<le> v - u"
    using mult_right_mono [of q 1 "v - u"] q(2) assms(3) by simp
  then show "u \<le> r" unfolding r by linarith
  have "r - u = (1 - q) * (v - u)" unfolding r by (simp add: algebra_simps)
  then have "(r - u) / (v - u) = 1 - q"
    using assms(3) by simp
  moreover have "su + (1 - q) * (sv - su) = b"
    using d by (simp add: q_def field_simps)
  ultimately show "su + (r - u) / (v - u) * (sv - su) = b" by simp
qed

lemma s_lambda_above_all:
  assumes a: "\<forall>k < n. 0 < a ! k"
    and none: "filter (\<lambda>t. lam < t) (breakpts y a n) = []"
  shows "s_lambda y a n lam = 0"
proof -
  have "a ! k * clip (y ! k - lam * a ! k) = 0" if "k \<in> set [0..<n]" for k
  proof -
    from that have k: "k < n" by simp
    from none breakpts_mem(1) [OF k, of y a] have "\<not> lam < y ! k / a ! k"
      by (auto simp: filter_empty_conv)
    then have "y ! k \<le> lam * a ! k" using a k by (simp add: pos_divide_le_eq not_less)
    then show ?thesis by (simp add: clip_low)
  qed
  then have "sum_list (map (\<lambda>k. a ! k * clip (y ! k - lam * a ! k)) [0..<n])
      = sum_list (map (\<lambda>k. 0) [0..<n])"
    by (rule sum_list_cong_set)
  then show ?thesis by (simp only: s_lambda_def) simp
qed

lemma s_lambda_below_all:
  assumes a: "\<forall>k < n. 0 < a ! k"
    and none: "filter (\<lambda>t. t < lam) (breakpts y a n) = []"
  shows "s_lambda y a n lam = total_weight a n"
proof -
  have "a ! k * clip (y ! k - lam * a ! k) = a ! k" if "k \<in> set [0..<n]" for k
  proof -
    from that have k: "k < n" by simp
    from none breakpts_mem(2) [OF k, of y a] have "\<not> (y ! k - 1) / a ! k < lam"
      by (auto simp: filter_empty_conv)
    then have "lam * a ! k \<le> y ! k - 1" using a k by (simp add: pos_le_divide_eq not_less)
    then show ?thesis by (simp add: clip_high)
  qed
  then have "sum_list (map (\<lambda>k. a ! k * clip (y ! k - lam * a ! k)) [0..<n])
      = sum_list (map (\<lambda>k. a ! k) [0..<n])"
    by (rule sum_list_cong_set)
  then show ?thesis by (simp only: s_lambda_def total_weight_def)
qed

lemma napup_walk_root:
  assumes "\<forall>k < n. 0 < a ! k" "0 \<le> b" "b < s_lambda y a n lam"
  shows "s_lambda y a n (napup_walk y a n b lam) = b"
  using assms
proof (induction y a n b lam rule: napup_walk.induct)
  case (1 y a n b lam)
  define cand where "cand = filter (\<lambda>t. lam < t) (breakpts y a n)"
  define nxt where "nxt = Min (set cand)"
  have ne: "cand \<noteq> []"
  proof
    assume "cand = []"
    then have "s_lambda y a n lam = 0"
      using s_lambda_above_all [OF "1.prems"(1)] by (simp add: cand_def)
    with "1.prems" show False by simp
  qed
  then have "nxt \<in> set cand" unfolding nxt_def by (intro Min_in) auto
  then have gt: "lam < nxt" by (simp add: cand_def)
  have gap: "\<forall>t \<in> set (breakpts y a n). \<not> (lam < t \<and> t < nxt)"
  proof (intro ballI notI)
    fix t assume "t \<in> set (breakpts y a n)" "lam < t \<and> t < nxt"
    then have "t \<in> set cand" "t < nxt" by (simp_all add: cand_def)
    moreover from this have "Min (set cand) \<le> t" by (intro Min_le) simp_all
    ultimately show False by (simp add: nxt_def)
  qed
  show ?case
  proof (cases "s_lambda y a n nxt \<le> b")
    case True
    define r where "r = lam + (s_lambda y a n lam - b) * (nxt - lam)
                         / (s_lambda y a n lam - s_lambda y a n nxt)"
    have w: "napup_walk y a n b lam = r"
      using ne True "1.prems"(3)
      by (subst napup_walk.simps) (simp add: Let_def cand_def [symmetric] nxt_def [symmetric] r_def)
    note ru = root_up [OF True "1.prems"(3) gt, folded r_def]
    have "s_lambda y a n r = s_lambda y a n lam
            + (r - lam) / (nxt - lam) * (s_lambda y a n nxt - s_lambda y a n lam)"
      by (rule s_lambda_affine [OF "1.prems"(1) gt ru(1) ru(2) gap])
    with ru(3) show ?thesis by (simp add: w)
  next
    case False
    have w: "napup_walk y a n b lam = napup_walk y a n b nxt"
      using ne False "1.prems"(3)
      by (subst napup_walk.simps) (simp add: Let_def cand_def [symmetric] nxt_def [symmetric])
    have "s_lambda y a n (napup_walk y a n b nxt) = b"
      using ne False "1.prems"
      by (intro "1.IH" [OF cand_def _ nxt_def]) simp_all
    then show ?thesis by (simp add: w)
  qed
qed

lemma napdown_walk_root:
  assumes "\<forall>k < n. 0 < a ! k" "b \<le> total_weight a n" "s_lambda y a n lam < b"
  shows "s_lambda y a n (napdown_walk y a n b lam) = b"
  using assms
proof (induction y a n b lam rule: napdown_walk.induct)
  case (1 y a n b lam)
  define cand where "cand = filter (\<lambda>t. t < lam) (breakpts y a n)"
  define nxt where "nxt = Max (set cand)"
  have ne: "cand \<noteq> []"
  proof
    assume "cand = []"
    then have "s_lambda y a n lam = total_weight a n"
      using s_lambda_below_all [OF "1.prems"(1)] by (simp add: cand_def)
    with "1.prems" show False by simp
  qed
  then have "nxt \<in> set cand" unfolding nxt_def by (intro Max_in) auto
  then have gt: "nxt < lam" by (simp add: cand_def)
  have gap: "\<forall>t \<in> set (breakpts y a n). \<not> (nxt < t \<and> t < lam)"
  proof (intro ballI notI)
    fix t assume "t \<in> set (breakpts y a n)" "nxt < t \<and> t < lam"
    then have "t \<in> set cand" "nxt < t" by (simp_all add: cand_def)
    moreover from this have "t \<le> Max (set cand)" by (intro Max_ge) simp_all
    ultimately show False by (simp add: nxt_def)
  qed
  show ?case
  proof (cases "s_lambda y a n nxt \<ge> b")
    case True
    define r where "r = lam - (b - s_lambda y a n lam) * (lam - nxt)
                         / (s_lambda y a n nxt - s_lambda y a n lam)"
    have w: "napdown_walk y a n b lam = r"
      using ne True "1.prems"(3)
      by (subst napdown_walk.simps) (simp add: Let_def cand_def [symmetric] nxt_def [symmetric] r_def)
    note ru = root_down [OF True "1.prems"(3) gt, folded r_def]
    have "s_lambda y a n r = s_lambda y a n nxt
            + (r - nxt) / (lam - nxt) * (s_lambda y a n lam - s_lambda y a n nxt)"
      by (rule s_lambda_affine [OF "1.prems"(1) gt ru(1) ru(2) gap])
    with ru(3) show ?thesis by (simp add: w)
  next
    case False
    have w: "napdown_walk y a n b lam = napdown_walk y a n b nxt"
      using ne False "1.prems"(3)
      by (subst napdown_walk.simps) (simp add: Let_def cand_def [symmetric] nxt_def [symmetric])
    have "s_lambda y a n (napdown_walk y a n b nxt) = b"
      using ne False "1.prems"
      by (intro "1.IH" [OF cand_def _ nxt_def]) simp_all
    then show ?thesis by (simp add: w)
  qed
qed

lemma QPnapup_contract: "napup_contract QPnapup"
  by (simp add: napup_contract_def QPnapup_def napup_walk_root)

lemma QPnapdown_contract: "napdown_contract QPnapdown"
  by (simp add: napdown_contract_def QPnapdown_def napdown_walk_root)

lemma call_nap_up:
  assumes "napup_contract f" "\<forall>k < nat n. 0 < arr_Gw m ! k" "0 \<le> b"
    "b < s_lambda (arr_x m) (arr_Gw m) (nat n) l0" "call_nap f m n l0 b = (r, m1)"
  shows "s_lambda (arr_x m) (arr_Gw m) (nat n) r = b"
proof -
  have "r = fst (f (arr_x m) n l0 (arr_Gw m) b (arr_w m) (arr_heap1 m) (arr_heap2 m))"
    using assms(5) by (auto simp: call_nap_def split: prod.splits)
  with assms(1-4) show ?thesis unfolding napup_contract_def by blast
qed

lemma call_nap_down:
  assumes "napdown_contract f" "\<forall>k < nat n. 0 < arr_Gw m ! k" "b \<le> total_weight (arr_Gw m) (nat n)"
    "s_lambda (arr_x m) (arr_Gw m) (nat n) l0 < b" "call_nap f m n l0 b = (r, m1)"
  shows "s_lambda (arr_x m) (arr_Gw m) (nat n) r = b"
proof -
  have "r = fst (f (arr_x m) n l0 (arr_Gw m) b (arr_w m) (arr_heap1 m) (arr_heap2 m))"
    using assms(5) by (auto simp: call_nap_def split: prod.splits)
  with assms(1-4) show ?thesis unfolding napdown_contract_def by blast
qed

section \<open>The multiplier the dispatch returns\<close>

lemma dispatch_kkt:
  fixes m :: arrays and n :: int
  defines "S \<equiv> s_lambda (arr_x m) (arr_Gw m) (nat n)"
  assumes up: "napup_contract napup" and down: "napdown_contract napdown"
    and a: "\<forall>k < nat n. 0 < arr_Gw m ! k"
    and lohi: "lo \<le> hi" and hi0: "0 \<le> hi" and lotot: "lo \<le> total_weight (arr_Gw m) (nat n)"
    and d: "dispatch napup napdown m n lo hi lam1 = (c, l, m1)"
  shows "lo \<le> S l \<and> S l \<le> hi \<and> (0 < l \<longrightarrow> S l = hi) \<and> (l < 0 \<longrightarrow> S l = lo) \<and>
         (lo \<le> S 0 \<and> S 0 \<le> hi \<longrightarrow> l = 0 \<or> l = lam1)"
proof -
  have a0: "\<forall>k < nat n. 0 \<le> arr_Gw m ! k" using a by (simp add: less_imp_le)
  have mono: "S t \<le> S r" if "r \<le> t" for r t
    unfolding S_def using a0 that by (rule s_lambda_antimono)
  have gt: "t < r" if "S r < S t" for r t
    using a that unfolding S_def by (rule s_lambda_less_imp)
  have S0: "0 \<le> S t" and Stot: "S t \<le> total_weight (arr_Gw m) (nat n)" for t
    unfolding S_def using a0 by (rule s_lambda_nonneg, rule s_lambda_le_total)
  have upr: "S r = b" if "0 \<le> b" "b < S l0" "call_nap napup m n l0 b = (r, m')" for b l0 r m'
    unfolding S_def using up a that(1) that(2) [unfolded S_def] that(3) by (rule call_nap_up)
  have downr: "S r = b"
    if "b \<le> total_weight (arr_Gw m) (nat n)" "S l0 < b" "call_nap napdown m n l0 b = (r, m')"
    for b l0 r m'
    unfolding S_def using down a that(1) that(2) [unfolded S_def] that(3) by (rule call_nap_down)
  note d' = d [unfolded dispatch_def Let_def initial_slope_eq slope_at_zero_eq, folded S_def]
  have "(lam1 \<ge> 0 \<and> S lam1 \<ge> hi) \<or> (\<not> (lam1 \<ge> 0 \<and> S lam1 \<ge> hi) \<and> lam1 \<le> 0 \<and> S lam1 \<le> lo) \<or>
      (lam1 > 0 \<and> S lam1 < hi) \<or> (lam1 < 0 \<and> S lam1 > lo) \<or> (lam1 = 0 \<and> lo < S 0 \<and> S 0 < hi)"
    by (cases "lam1 = 0") auto
  then consider (c1) "lam1 \<ge> 0" "S lam1 \<ge> hi"
    | (c2) "\<not> (lam1 \<ge> 0 \<and> S lam1 \<ge> hi)" "lam1 \<le> 0" "S lam1 \<le> lo"
    | (c3) "lam1 > 0" "S lam1 < hi"
    | (c4) "lam1 < 0" "S lam1 > lo"
    | (c0) "lam1 = 0" "lo < S 0" "S 0 < hi"
    by blast
  then show ?thesis
  proof cases
    case c1
    show ?thesis
    proof (cases "S lam1 > hi")
      case True
      obtain r mr where cr: "call_nap napup m n lam1 hi = (r, mr)" by force
      have l: "l = MONGOOSE_MAX2 0 r" using d' cr by (simp add: c1 True)
      have Sr: "S r = hi" using hi0 True cr by (rule upr)
      with True have lr: "lam1 < r" by (simp add: gt)
      with c1 have "l = r" by (simp add: l MONGOOSE_MAX2_def)
      moreover have "S lam1 \<le> S 0" using c1 by (simp add: mono)
      ultimately show ?thesis using Sr lohi lr c1 True by auto
    next
      case False
      have l: "l = lam1" using d' by (simp add: c1 False)
      from False c1 have "S lam1 = hi" by simp
      then show ?thesis using c1 lohi l by auto
    qed
  next
    case c2
    show ?thesis
    proof (cases "S lam1 < lo")
      case True
      obtain r mr where cr: "call_nap napdown m n lam1 lo = (r, mr)" by force
      have l: "l = MONGOOSE_MIN2 r 0" using d' cr by (simp add: c2 True)
      have Sr: "S r = lo" using lotot True cr by (rule downr)
      with True have lr: "r < lam1" by (simp add: gt)
      with c2 have "l = r" by (simp add: l MONGOOSE_MIN2_def)
      moreover have "S 0 \<le> S lam1" using c2 by (simp add: mono)
      ultimately show ?thesis using Sr lohi lr c2 True by auto
    next
      case False
      have l: "l = lam1" using d' by (simp add: c2 False)
      from False c2 have "S lam1 = lo" by simp
      then show ?thesis using c2 lohi l by auto
    qed
  next
    case c3
    then have n1: "\<not> hi \<le> S lam1" "\<not> lam1 \<le> 0" "lam1 \<noteq> 0" "0 \<le> lam1" "S lam1 < hi"
      by simp_all
    consider (a) "S 0 < lo" | (b) "\<not> S 0 < lo" "S 0 > hi" | (c) "lo \<le> S 0" "S 0 \<le> hi"
      by linarith
    then show ?thesis
    proof cases
      case a
      obtain r mr where cr: "call_nap napdown m n 0 lo = (r, mr)" by force
      have l: "l = (if r > 0 then 0 else r)" using d' cr by (simp add: n1 a)
      have Sr: "S r = lo" using lotot a cr by (rule downr)
      with a have lr: "r < 0" by (simp add: gt)
      then have "l = r" by (simp add: l)
      then show ?thesis using Sr lohi lr a by auto
    next
      case b
      obtain r mr where cr: "call_nap napdown m n lam1 hi = (r, mr)" by force
      have l: "l = (if r < 0 then 0 else r)" using d' cr by (simp add: n1 b)
      have "hi \<le> total_weight (arr_Gw m) (nat n)" using b(2) Stot [of 0] by simp
      then have Sr: "S r = hi" using c3(2) cr by (rule downr)
      with b have lr: "0 < r" by (simp add: gt)
      then have "l = r" by (simp add: l)
      then show ?thesis using Sr lohi lr b by auto
    next
      case c
      from c have "\<not> S 0 < lo" "\<not> hi < S 0" by simp_all
      then have "l = 0" using d' by (simp add: n1)
      then show ?thesis using c by auto
    qed
  next
    case c4
    then have n1: "\<not> 0 \<le> lam1" "\<not> S lam1 \<le> lo" "lam1 \<noteq> 0"
      by simp_all
    consider (a) "S 0 > hi" | (b) "\<not> S 0 > hi" "S 0 < lo" | (c) "lo \<le> S 0" "S 0 \<le> hi"
      by linarith
    then show ?thesis
    proof cases
      case a
      obtain r mr where cr: "call_nap napup m n 0 hi = (r, mr)" by force
      have l: "l = MONGOOSE_MAX2 r 0" using d' cr by (simp add: n1 a)
      have Sr: "S r = hi" using hi0 a cr by (rule upr)
      with a have lr: "0 < r" by (simp add: gt)
      then have "l = r" by (simp add: l MONGOOSE_MAX2_def)
      then show ?thesis using Sr lohi lr a by auto
    next
      case b
      obtain r mr where cr: "call_nap napup m n lam1 lo = (r, mr)" by force
      have l: "l = MONGOOSE_MIN2 0 r" using d' cr by (simp add: n1 b)
      have "0 \<le> lo" using b(2) S0 [of 0] by simp
      then have Sr: "S r = lo" using c4(2) cr by (rule upr)
      with b have lr: "r < 0" by (simp add: gt)
      then have "l = r" by (simp add: l MONGOOSE_MIN2_def)
      then show ?thesis using Sr lohi lr b by auto
    next
      case c
      from c have "\<not> S 0 < lo" "\<not> hi < S 0" by simp_all
      then have "l = 0" using d' by (simp add: n1)
      then show ?thesis using c by auto
    qed
  next
    case c0
    with d' have "l = 0" by simp
    then show ?thesis using c0 by auto
  qed
qed

section \<open>Optimality\<close>

lemma clip_nearest:
  assumes "0 \<le> t" "t \<le> 1"
  shows "(clip z - z)\<^sup>2 \<le> (t - z)\<^sup>2"
proof -
  have "\<bar>clip z - z\<bar> \<le> \<bar>t - z\<bar>"
    using assms by (auto simp: clip_def abs_if)
  then show ?thesis by (simp only: abs_le_square_iff)
qed

lemma clip_lagrange:
  assumes "0 \<le> t" "t \<le> 1"
  shows "1 / 2 * (clip (y - l * a) - y)\<^sup>2 + l * (a * clip (y - l * a))
       \<le> 1 / 2 * (t - y)\<^sup>2 + l * (a * t)"
proof -
  define z where "z = y - l * a"
  have e: "1 / 2 * (s - y)\<^sup>2 + l * (a * s) = 1 / 2 * (s - z)\<^sup>2 + (1 / 2 * y\<^sup>2 - 1 / 2 * z\<^sup>2)" for s
    by (simp add: z_def power2_eq_square algebra_simps)
  have "1 / 2 * (clip z - z)\<^sup>2 \<le> 1 / 2 * (t - z)\<^sup>2"
    using clip_nearest [OF assms, of z] by simp
  then have "1 / 2 * (clip z - y)\<^sup>2 + l * (a * clip z) \<le> 1 / 2 * (t - y)\<^sup>2 + l * (a * t)"
    by (simp only: e)
  then show ?thesis by (simp only: z_def)
qed

lemma sum_list_add_scaled:
  fixes f g :: "nat \<Rightarrow> real"
  shows "sum_list (map (\<lambda>k. 1 / 2 * f k + l * g k) ks)
       = 1 / 2 * sum_list (map f ks) + l * sum_list (map g ks)"
  by (induction ks) (simp_all add: algebra_simps)

lemma lagrange_sum:
  assumes x: "\<forall>k < n. x ! k = clip (y ! k - l * a ! k)"
    and z: "\<forall>k < n. 0 \<le> z ! k \<and> z ! k \<le> 1"
  shows "half_sq_dist n x y + l * atx_sum (Some a) x n
       \<le> half_sq_dist n z y + l * atx_sum (Some a) z n"
proof -
  have "sum_list (map (\<lambda>k. 1 / 2 * (x ! k - y ! k)\<^sup>2 + l * (a ! k * x ! k)) [0..<n])
      \<le> sum_list (map (\<lambda>k. 1 / 2 * (z ! k - y ! k)\<^sup>2 + l * (a ! k * z ! k)) [0..<n])"
  proof (rule sum_list_mono)
    fix k assume "k \<in> set [0..<n]"
    then have k: "k < n" by simp
    with z have "0 \<le> z ! k" "z ! k \<le> 1" by simp_all
    from clip_lagrange [OF this, of "y ! k" l "a ! k"] x k
    show "1 / 2 * (x ! k - y ! k)\<^sup>2 + l * (a ! k * x ! k)
        \<le> 1 / 2 * (z ! k - y ! k)\<^sup>2 + l * (a ! k * z ! k)" by simp
  qed
  then show ?thesis
    by (simp only: sum_list_add_scaled half_sq_dist_def atx_sum_def weight_def option.case)
qed

lemma kkt_optimal:
  assumes x: "\<forall>k < n. x ! k = clip (y ! k - l * a ! k)"
    and hi: "0 < l \<longrightarrow> s_lambda y a n l = hi"
    and lo: "l < 0 \<longrightarrow> s_lambda y a n l = lo"
    and z: "feasible a n lo hi z"
  shows "half_sq_dist n x y \<le> half_sq_dist n z y"
proof -
  from z have zb: "\<forall>k < n. 0 \<le> z ! k \<and> z ! k \<le> 1"
    and zlo: "lo \<le> atx_sum (Some a) z n" and zhi: "atx_sum (Some a) z n \<le> hi"
    by (simp_all add: feasible_def)
  have L: "half_sq_dist n x y + l * s_lambda y a n l
         \<le> half_sq_dist n z y + l * atx_sum (Some a) z n"
    using lagrange_sum [OF x zb] by (simp only: atx_sum_clip [OF x])
  have "l * atx_sum (Some a) z n \<le> l * s_lambda y a n l"
  proof (cases "0 < l")
    case True
    with hi zhi show ?thesis by (simp add: mult_left_mono)
  next
    case False
    show ?thesis
    proof (cases "l < 0")
      case True
      with lo zlo show ?thesis by (simp add: mult_left_mono_neg)
    next
      case False
      with \<open>\<not> 0 < l\<close> have "l = 0" by simp
      then show ?thesis by simp
    qed
  qed
  with L show ?thesis by linarith
qed

lemma feasible_bounds:
  assumes a: "\<forall>k < n. 0 \<le> a ! k" and z: "feasible a n lo hi z"
  shows "0 \<le> hi" "lo \<le> total_weight a n"
proof -
  from z have zb: "\<forall>k < n. 0 \<le> z ! k \<and> z ! k \<le> 1"
    and zlo: "lo \<le> atx_sum (Some a) z n" and zhi: "atx_sum (Some a) z n \<le> hi"
    by (simp_all add: feasible_def)
  have "0 \<le> atx_sum (Some a) z n"
    unfolding atx_sum_def weight_def option.case
    using a zb by (intro sum_list_nonneg) auto
  with zhi show "0 \<le> hi" by simp
  have "atx_sum (Some a) z n \<le> total_weight a n"
    unfolding atx_sum_def weight_def option.case total_weight_def
  proof (rule sum_list_mono)
    fix k assume "k \<in> set [0..<n]"
    then have k: "k < n" by simp
    with a zb have "a ! k * z ! k \<le> a ! k * 1" by (intro mult_left_mono) simp_all
    then show "a ! k * z ! k \<le> a ! k" by simp
  qed
  with zlo show "lo \<le> total_weight a n" by simp
qed

lemma QPnapsack_core:
  fixes m :: arrays and n :: int
  defines "S \<equiv> s_lambda (arr_x m) (arr_Gw m) (nat n)"
  assumes up: "napup_contract napup" and down: "napdown_contract napdown"
    and len: "nat n \<le> length (arr_x m)"
    and a: "\<forall>k < nat n. 0 < arr_Gw m ! k"
    and lohi: "lo \<le> hi" and hi0: "0 \<le> hi" and lotot: "lo \<le> total_weight (arr_Gw m) (nat n)"
    and g: "starting_guess (arr_x m) n lo hi (arr_Gw m) Lambda (arr_FreeSet_status m) = Inr lam1"
  shows "\<exists>l m'. QPnapsack napup napdown m n lo hi Lambda = Inr (l, m') \<and>
           (\<forall>k < nat n. arr_x m' ! k = clip (arr_x m ! k - l * arr_Gw m ! k)) \<and>
           atx_sum (Some (arr_Gw m)) (arr_x m') (nat n) = S l \<and>
           lo \<le> S l \<and> S l \<le> hi \<and> (0 < l \<longrightarrow> S l = hi) \<and> (l < 0 \<longrightarrow> S l = lo) \<and>
           (lo \<le> S 0 \<and> S 0 \<le> hi \<longrightarrow> l = 0 \<or> l = lam1)"
proof -
  obtain c l m1 where d: "dispatch napup napdown m n lo hi lam1 = (c, l, m1)"
    by (cases "dispatch napup napdown m n lo hi lam1") auto
  note f = dispatch_fields [OF d]
  note k = dispatch_kkt [OF up down a lohi hi0 lotot d, folded S_def]
  define m' where "m' = m1\<lparr>arr_x := replace_x (arr_x m1) n (arr_Gw m1) l\<rparr>"
  have Gw: "arr_Gw m' = arr_Gw m" by (simp add: m'_def f)
  have x: "arr_x m' = replace_x (arr_x m) n (arr_Gw m) l" by (simp add: m'_def f)
  have xk: "\<forall>k < nat n. arr_x m' ! k = clip (arr_x m ! k - l * arr_Gw m ! k)"
    by (simp add: x replace_x_props(2) [OF len])
  have atx: "atx_sum (Some (arr_Gw m)) (arr_x m') (nat n) = S l"
    unfolding S_def by (rule atx_sum_clip [OF xk])
  have "checkatx (arr_x m') (Some (arr_Gw m')) n lo hi = Inr ()"
    using k by (simp add: checkatx_Inr_iff Gw atx xk clip_bounds)
  then have "QPnapsack napup napdown m n lo hi Lambda = Inr (l, m')"
    by (simp add: QPnapsack_def g d m'_def Let_def)
  with xk atx k show ?thesis by blast
qed

section \<open>The worked input, evaluated\<close>

lemma upt_2: "[0..<nat 2] = [0, 1]" "[0..<2] = [0, Suc 0]"
  by (simp_all add: upt_rec numeral_2_eq_2)

lemma s_lambda_example: "s_lambda [3 / 5, 3 / 5] [1, 1] 2 t = 2 * clip (3 / 5 - t)"
  by (simp add: s_lambda_def upt_2)

lemma breakpts_example: "breakpts [3 / 5, 3 / 5] [1, 1] 2 = [3 / 5, - 2 / 5, 3 / 5, - 2 / 5]"
  by (simp add: breakpts_def upt_2)

lemma napup_walk_example: "napup_walk [3 / 5, 3 / 5] [1, 1] 2 1 0 = 1 / 10"
  by (subst napup_walk.simps) (simp add: s_lambda_example breakpts_example clip_def Let_def)

lemma initial_slope_example: "initial_slope [3 / 5, 3 / 5] 2 [1, 1] 0 = 6 / 5"
  by (simp add: initial_slope_eq s_lambda_example clip_def)

lemma dispatch_example:
  "dispatch QPnapup QPnapdown example_arrays 2 1 1 0 = (Case1_up, 1 / 10, example_arrays)"
  by (simp add: dispatch_def example_arrays_def initial_slope_example call_nap_def QPnapup_def
      napup_walk_example MONGOOSE_MAX2_def)

lemma QPnapsack_example:
  "QPnapsack QPnapup QPnapdown example_arrays 2 1 1 0
     = Inr (1 / 10, example_arrays\<lparr>arr_x := [1 / 2, 1 / 2]\<rparr>)"
proof -
  have g: "starting_guess (arr_x example_arrays) 2 1 1 (arr_Gw example_arrays) 0
            (arr_FreeSet_status example_arrays) = Inr 0"
    by (simp add: starting_guess_def example_arrays_def)
  have r: "replace_x [3 / 5, 3 / 5] 2 [1, 1] (1 / 10) = [1 / 2, 1 / 2]"
    by (simp add: replace_x_def upt_2 clip_def Let_def)
  have c: "checkatx [1 / 2, 1 / 2] (Some [1, 1]) 2 1 1 = Inr ()"
    by (simp add: checkatx_Inr_iff atx_sum_def weight_def upt_2 less_Suc_eq numeral_2_eq_2)
  show ?thesis
    by (simp add: QPnapsack_def g dispatch_example) (simp add: example_arrays_def r c)
qed

lemma upt_4: "[0..<4] = [0, 1, 2, 3]"
  by (simp add: upt_rec eval_nat_numeral)

lemma s_lambda_unit_test:
  "s_lambda [3 / 5, 3 / 5, 3 / 5, 3 / 5] [1, 1, 1, 1] 4 t = 4 * clip (3 / 5 - t)"
  by (simp add: s_lambda_def upt_4)

lemma s_lambda_warm: "s_lambda [3 / 4, 3 / 4] [1, 1] 2 t = 2 * clip (3 / 4 - t)"
  by (simp add: s_lambda_def upt_2)

lemma breakpts_warm: "breakpts [3 / 4, 3 / 4] [1, 1] 2 = [3 / 4, - 1 / 4, 3 / 4, - 1 / 4]"
  by (simp add: breakpts_def upt_2)

lemma napdown_walk_warm: "napdown_walk [3 / 4, 3 / 4] [1, 1] 2 1 (1 / 2) = 1 / 4"
  by (subst napdown_walk.simps) (simp add: s_lambda_warm breakpts_warm clip_def Let_def)

lemma dispatch_warm:
  "dispatch QPnapup QPnapdown warm_arrays 2 1 1 (1 / 2) = (Case3b_down, 1 / 4, warm_arrays)"
proof -
  have sl: "initial_slope [3 / 4, 3 / 4] 2 [1, 1] (1 / 2) = 1 / 2"
    by (simp add: initial_slope_eq s_lambda_warm clip_def)
  have s0: "slope_at_zero [3 / 4, 3 / 4] 2 [1, 1] = 3 / 2"
    by (simp add: slope_at_zero_eq s_lambda_warm clip_def)
  show ?thesis
    by (simp add: dispatch_def warm_arrays_def sl s0 call_nap_def QPnapdown_def
        napdown_walk_warm)
qed

lemma QPnapsack_warm:
  "QPnapsack QPnapup QPnapdown warm_arrays 2 1 1 (1 / 2)
     = Inr (1 / 4, warm_arrays\<lparr>arr_x := [1 / 2, 1 / 2]\<rparr>)"
proof -
  have g: "starting_guess (arr_x warm_arrays) 2 1 1 (arr_Gw warm_arrays) (1 / 2)
            (arr_FreeSet_status warm_arrays) = Inr (1 / 2)"
    by (simp add: starting_guess_def warm_arrays_def)
  have r: "replace_x [3 / 4, 3 / 4] 2 [1, 1] (1 / 4) = [1 / 2, 1 / 2]"
    by (simp add: replace_x_def upt_2 clip_def Let_def)
  have c: "checkatx [1 / 2, 1 / 2] (Some [1, 1]) 2 1 1 = Inr ()"
    by (simp add: checkatx_Inr_iff atx_sum_def weight_def upt_2 less_Suc_eq numeral_2_eq_2)
  show ?thesis
    by (simp add: QPnapsack_def g dispatch_warm) (simp add: warm_arrays_def r c)
qed

lemma s_lambda_infeasible: "s_lambda [1 / 2] [1] (Suc 0) t = clip (1 / 2 - t)"
  by (simp add: s_lambda_def)

lemma breakpts_infeasible: "breakpts [1 / 2] [1] (Suc 0) = [1 / 2, - 1 / 2]"
  by (simp add: breakpts_def)

lemma napdown_walk_infeasible: "napdown_walk [1 / 2] [1] (Suc 0) 5 0 = - 1 / 2"
proof -
  have "napdown_walk [1 / 2] [1] (Suc 0) 5 (- 1 / 2) = - 1 / 2"
    by (subst napdown_walk.simps) (simp add: s_lambda_infeasible breakpts_infeasible clip_def Let_def)
  then show ?thesis
    by (subst napdown_walk.simps) (simp add: s_lambda_infeasible breakpts_infeasible clip_def Let_def)
qed

lemma dispatch_infeasible:
  "dispatch QPnapup QPnapdown infeasible_arrays 1 5 5 0
     = (Case2_down, - 1 / 2, infeasible_arrays)"
proof -
  have sl: "initial_slope [1 / 2] 1 [1] 0 = 1 / 2"
    by (simp add: initial_slope_eq s_lambda_infeasible clip_def)
  show ?thesis
    by (simp add: dispatch_def infeasible_arrays_def sl call_nap_def QPnapdown_def
        napdown_walk_infeasible MONGOOSE_MIN2_def Let_def)
qed

section \<open>The final validator\<close>

text \<open>
  C4. \<open>checkatx (x, a, n, lo, hi)\<close> passes without reaching \<open>ASSERT (0)\<close> exactly when
  every \<open>x[k]\<close> with \<open>k < n\<close> lies in \<open>[0, 1]\<close> and \<open>lo - 0.001 \<le> a'x \<le> hi + 0.001\<close>, a
  \<open>NULL\<close> weight vector counting as identically one.
\<close>

theorem checkatx_passes_iff:
  "checkatx x a n lo hi = Inr () \<longleftrightarrow>
     (\<forall>k < nat n. 0 \<le> x ! k \<and> x ! k \<le> 1) \<and>
     lo - 1 / 1000 \<le> atx_sum a x (nat n) \<and> atx_sum a x (nat n) \<le> hi + 1 / 1000"
  by (rule checkatx_Inr_iff)

theorem checkatx_passes_iff_witness:
  "checkatx [1 / 2, 1] None 2 1 2 = Inr () \<and>
   atx_sum None [1 / 2, 1] (nat 2) = 3 / 2 \<and>
   checkatx [1 / 2, 3] (Some [1, 1]) 2 1 2 = Inl AssertionFailed"
  using checkatx_passes_iff [of "[1 / 2, 1]" None 2 1 2]
    checkatx_passes_iff [of "[1 / 2, 3]" "Some [1, 1]" 2 1 2]
  by (simp add: atx_sum_def weight_def less_Suc_eq numeral_2_eq_2 upt_rec all_conj_distrib
      checkatx_def checkatx_body_def ASSERT_def)

section \<open>The claims about the knapsack projection\<close>

text \<open>
  C1. For weights \<open>a[k] \<ge> 1\<close>, bounds \<open>lo \<le> hi\<close> that some point of the box meets, any
  initial lambda and any \<open>FreeSet_status\<close>, and with two searches that meet their
  contract, \<open>QPnapsack\<close> returns, and the \<open>x\<close> it leaves is a point of the feasible set
  \<open>{z : 0 \<le> z \<le> 1, lo \<le> a'z \<le> hi}\<close> that minimizes \<open>1/2 ||z - y||^2\<close> over it, \<open>y\<close>
  being the contents of \<open>x\<close> on entry.
\<close>

theorem QPnapsack_minimizes:
  assumes up: "napup_contract napup" and down: "napdown_contract napdown"
    and len: "nat n \<le> length (arr_x m)"
    and a: "\<forall>k < nat n. 1 \<le> arr_Gw m ! k"
    and lohi: "lo \<le> hi"
    and z0: "feasible (arr_Gw m) (nat n) lo hi z0"
  shows "\<exists>l m'. QPnapsack napup napdown m n lo hi Lambda = Inr (l, m') \<and>
           feasible (arr_Gw m) (nat n) lo hi (arr_x m') \<and>
           (\<forall>z. feasible (arr_Gw m) (nat n) lo hi z \<longrightarrow>
                half_sq_dist (nat n) (arr_x m') (arr_x m) \<le> half_sq_dist (nat n) z (arr_x m))"
proof -
  have a0: "\<forall>k < nat n. 0 < arr_Gw m ! k"
  proof (intro allI impI)
    fix k assume "k < nat n"
    with a have "1 \<le> arr_Gw m ! k" by simp
    then show "0 < arr_Gw m ! k" by simp
  qed
  then have a1: "\<forall>k < nat n. 0 \<le> arr_Gw m ! k" by (simp add: less_imp_le)
  obtain lam1 where
    g: "starting_guess (arr_x m) n lo hi (arr_Gw m) Lambda (arr_FreeSet_status m) = Inr lam1"
    using starting_guess_total by blast
  note b = feasible_bounds [OF a1 z0]
  from QPnapsack_core [OF up down len a0 lohi b g]
  obtain l m' where r: "QPnapsack napup napdown m n lo hi Lambda = Inr (l, m')"
    and xk: "\<forall>k < nat n. arr_x m' ! k = clip (arr_x m ! k - l * arr_Gw m ! k)"
    and atx: "atx_sum (Some (arr_Gw m)) (arr_x m') (nat n) = s_lambda (arr_x m) (arr_Gw m) (nat n) l"
    and rng: "lo \<le> s_lambda (arr_x m) (arr_Gw m) (nat n) l" "s_lambda (arr_x m) (arr_Gw m) (nat n) l \<le> hi"
    and khi: "0 < l \<longrightarrow> s_lambda (arr_x m) (arr_Gw m) (nat n) l = hi"
    and klo: "l < 0 \<longrightarrow> s_lambda (arr_x m) (arr_Gw m) (nat n) l = lo"
    by blast
  have "feasible (arr_Gw m) (nat n) lo hi (arr_x m')"
    using rng by (simp add: feasible_def atx xk clip_bounds)
  moreover have "half_sq_dist (nat n) (arr_x m') (arr_x m) \<le> half_sq_dist (nat n) z (arr_x m)"
    if "feasible (arr_Gw m) (nat n) lo hi z" for z
    using xk khi klo that by (rule kkt_optimal)
  ultimately show ?thesis using r by blast
qed

theorem QPnapsack_minimizes_witness:
  "napup_contract QPnapup \<and> napdown_contract QPnapdown \<and>
   feasible (arr_Gw example_arrays) (nat 2) 1 1 [1 / 2, 1 / 2] \<and>
   (\<exists>l m'. QPnapsack QPnapup QPnapdown example_arrays 2 1 1 0 = Inr (l, m') \<and>
      feasible (arr_Gw example_arrays) (nat 2) 1 1 (arr_x m') \<and>
      (\<forall>z. feasible (arr_Gw example_arrays) (nat 2) 1 1 z \<longrightarrow>
           half_sq_dist (nat 2) (arr_x m') (arr_x example_arrays)
             \<le> half_sq_dist (nat 2) z (arr_x example_arrays)))"
proof -
  have len: "nat 2 \<le> length (arr_x example_arrays)"
    by (simp add: example_arrays_def)
  have a: "\<forall>k < nat 2. 1 \<le> arr_Gw example_arrays ! k"
    by (simp add: example_arrays_def less_Suc_eq numeral_2_eq_2)
  have z0: "feasible (arr_Gw example_arrays) (nat 2) 1 1 [1 / 2, 1 / 2]"
    by (simp add: feasible_def example_arrays_def atx_sum_def weight_def upt_2 less_Suc_eq
        numeral_2_eq_2)
  from QPnapsack_minimizes [OF QPnapup_contract QPnapdown_contract len a _ z0, of 0]
    QPnapup_contract QPnapdown_contract z0
  show ?thesis by simp
qed

text \<open>
  C2, as the code has it. Whenever \<open>QPnapsack\<close> returns, with \<open>lambda\<close> the value it
  returns and \<open>y\<close> the contents of \<open>x\<close> on entry, \<open>x[k] = clip (y[k] - lambda * a[k], 0, 1)\<close>
  for every \<open>k < n\<close>. For weights \<open>a[k] \<ge> 1\<close> and bounds \<open>lo \<le> hi\<close> that some point of the
  box meets, and with two searches that meet their contract, it does return, and
  \<open>lo \<le> a'x \<le> hi\<close>, so that \<open>a'x\<close> lies in \<open>[lo - 0.001, hi + 0.001]\<close>.
\<close>

theorem QPnapsack_output:
  "(nat n \<le> length (arr_x m) \<and> QPnapsack napup napdown m n lo hi Lambda = Inr (l, m') \<longrightarrow>
      (\<forall>k < nat n. arr_x m' ! k = clip (arr_x m ! k - l * arr_Gw m ! k))) \<and>
   (napup_contract napup \<and> napdown_contract napdown \<and> nat n \<le> length (arr_x m) \<and>
    (\<forall>k < nat n. 1 \<le> arr_Gw m ! k) \<and> lo \<le> hi \<and> feasible (arr_Gw m) (nat n) lo hi z0 \<longrightarrow>
      (\<exists>l m'. QPnapsack napup napdown m n lo hi Lambda = Inr (l, m') \<and>
         (\<forall>k < nat n. arr_x m' ! k = clip (arr_x m ! k - l * arr_Gw m ! k)) \<and>
         lo \<le> atx_sum (Some (arr_Gw m)) (arr_x m') (nat n) \<and>
         atx_sum (Some (arr_Gw m)) (arr_x m') (nat n) \<le> hi \<and>
         lo - 1 / 1000 \<le> atx_sum (Some (arr_Gw m)) (arr_x m') (nat n) \<and>
         atx_sum (Some (arr_Gw m)) (arr_x m') (nat n) \<le> hi + 1 / 1000))"
proof (intro conjI impI)
  assume h: "nat n \<le> length (arr_x m) \<and> QPnapsack napup napdown m n lo hi Lambda = Inr (l, m')"
  then have len: "nat n \<le> length (arr_x m)" by simp
  from h obtain lam1 c m1 where
    d: "dispatch napup napdown m n lo hi lam1 = (c, l, m1)"
    and m': "m' = m1\<lparr>arr_x := replace_x (arr_x m1) n (arr_Gw m1) l\<rparr>"
    by (auto elim: QPnapsack_InrD)
  note f = dispatch_fields [OF d]
  have x: "arr_x m' = replace_x (arr_x m) n (arr_Gw m) l" by (simp add: m' f)
  show "\<forall>k < nat n. arr_x m' ! k = clip (arr_x m ! k - l * arr_Gw m ! k)"
    by (simp add: x replace_x_props(2) [OF len])
next
  assume h: "napup_contract napup \<and> napdown_contract napdown \<and> nat n \<le> length (arr_x m) \<and>
    (\<forall>k < nat n. 1 \<le> arr_Gw m ! k) \<and> lo \<le> hi \<and> feasible (arr_Gw m) (nat n) lo hi z0"
  then have up: "napup_contract napup" and down: "napdown_contract napdown"
    and len: "nat n \<le> length (arr_x m)" and a: "\<forall>k < nat n. 1 \<le> arr_Gw m ! k"
    and lohi: "lo \<le> hi" and z0: "feasible (arr_Gw m) (nat n) lo hi z0" by simp_all
  have a0: "\<forall>k < nat n. 0 < arr_Gw m ! k"
  proof (intro allI impI)
    fix k assume "k < nat n"
    with a have "1 \<le> arr_Gw m ! k" by simp
    then show "0 < arr_Gw m ! k" by simp
  qed
  then have a1: "\<forall>k < nat n. 0 \<le> arr_Gw m ! k" by (simp add: less_imp_le)
  obtain lam1 where
    g: "starting_guess (arr_x m) n lo hi (arr_Gw m) Lambda (arr_FreeSet_status m) = Inr lam1"
    using starting_guess_total by blast
  note b = feasible_bounds [OF a1 z0]
  from QPnapsack_core [OF up down len a0 lohi b g]
  obtain l m' where r: "QPnapsack napup napdown m n lo hi Lambda = Inr (l, m')"
    and xk: "\<forall>k < nat n. arr_x m' ! k = clip (arr_x m ! k - l * arr_Gw m ! k)"
    and atx: "atx_sum (Some (arr_Gw m)) (arr_x m') (nat n) = s_lambda (arr_x m) (arr_Gw m) (nat n) l"
    and rng: "lo \<le> s_lambda (arr_x m) (arr_Gw m) (nat n) l" "s_lambda (arr_x m) (arr_Gw m) (nat n) l \<le> hi"
    by blast
  from rng have "lo \<le> atx_sum (Some (arr_Gw m)) (arr_x m') (nat n)"
    "atx_sum (Some (arr_Gw m)) (arr_x m') (nat n) \<le> hi"
    "lo - 1 / 1000 \<le> atx_sum (Some (arr_Gw m)) (arr_x m') (nat n)"
    "atx_sum (Some (arr_Gw m)) (arr_x m') (nat n) \<le> hi + 1 / 1000"
    by (simp_all add: atx)
  with r xk show "\<exists>l m'. QPnapsack napup napdown m n lo hi Lambda = Inr (l, m') \<and>
         (\<forall>k < nat n. arr_x m' ! k = clip (arr_x m ! k - l * arr_Gw m ! k)) \<and>
         lo \<le> atx_sum (Some (arr_Gw m)) (arr_x m') (nat n) \<and>
         atx_sum (Some (arr_Gw m)) (arr_x m') (nat n) \<le> hi \<and>
         lo - 1 / 1000 \<le> atx_sum (Some (arr_Gw m)) (arr_x m') (nat n) \<and>
         atx_sum (Some (arr_Gw m)) (arr_x m') (nat n) \<le> hi + 1 / 1000"
    by blast
qed

theorem QPnapsack_output_witness:
  "QPnapsack QPnapup QPnapdown warm_arrays 2 1 1 (1 / 2)
     = Inr (1 / 4, warm_arrays\<lparr>arr_x := [1 / 2, 1 / 2]\<rparr>) \<and>
   arr_x (warm_arrays\<lparr>arr_x := [1 / 2, 1 / 2]\<rparr>) ! 1
     = clip (arr_x warm_arrays ! 1 - 1 / 4 * arr_Gw warm_arrays ! 1) \<and>
   napup_contract QPnapup \<and> napdown_contract QPnapdown \<and>
   feasible (arr_Gw warm_arrays) (nat 2) 1 1 [1 / 2, 1 / 2] \<and>
   (\<exists>l m'. QPnapsack QPnapup QPnapdown warm_arrays 2 1 1 (1 / 2) = Inr (l, m') \<and>
      (\<forall>k < nat 2. arr_x m' ! k = clip (arr_x warm_arrays ! k - l * arr_Gw warm_arrays ! k)) \<and>
      1 \<le> atx_sum (Some (arr_Gw warm_arrays)) (arr_x m') (nat 2) \<and>
      atx_sum (Some (arr_Gw warm_arrays)) (arr_x m') (nat 2) \<le> 1 \<and>
      1 - 1 / 1000 \<le> atx_sum (Some (arr_Gw warm_arrays)) (arr_x m') (nat 2) \<and>
      atx_sum (Some (arr_Gw warm_arrays)) (arr_x m') (nat 2) \<le> 1 + 1 / 1000)"
proof -
  have len: "nat 2 \<le> length (arr_x warm_arrays)"
    by (simp add: warm_arrays_def)
  have a: "\<forall>k < nat 2. 1 \<le> arr_Gw warm_arrays ! k"
    by (simp add: warm_arrays_def less_Suc_eq numeral_2_eq_2)
  have z0: "feasible (arr_Gw warm_arrays) (nat 2) 1 1 [1 / 2, 1 / 2]"
    by (simp add: feasible_def warm_arrays_def atx_sum_def weight_def upt_2 less_Suc_eq
        numeral_2_eq_2)
  have k: "(1::nat) < nat 2" by simp
  have lohi: "(1::real) \<le> 1" by simp
  note t = QPnapsack_output [of 2 warm_arrays QPnapup QPnapdown 1 1 "1 / 2" "1 / 4"
      "warm_arrays\<lparr>arr_x := [1 / 2, 1 / 2]\<rparr>" "[1 / 2, 1 / 2]"]
  from t len QPnapsack_warm k
  have 1: "arr_x (warm_arrays\<lparr>arr_x := [1 / 2, 1 / 2]\<rparr>) ! 1
     = clip (arr_x warm_arrays ! 1 - 1 / 4 * arr_Gw warm_arrays ! 1)" by blast
  from t QPnapup_contract QPnapdown_contract len a lohi z0
  have 2: "\<exists>l m'. QPnapsack QPnapup QPnapdown warm_arrays 2 1 1 (1 / 2) = Inr (l, m') \<and>
      (\<forall>k < nat 2. arr_x m' ! k = clip (arr_x warm_arrays ! k - l * arr_Gw warm_arrays ! k)) \<and>
      1 \<le> atx_sum (Some (arr_Gw warm_arrays)) (arr_x m') (nat 2) \<and>
      atx_sum (Some (arr_Gw warm_arrays)) (arr_x m') (nat 2) \<le> 1 \<and>
      1 - 1 / 1000 \<le> atx_sum (Some (arr_Gw warm_arrays)) (arr_x m') (nat 2) \<and>
      atx_sum (Some (arr_Gw warm_arrays)) (arr_x m') (nat 2) \<le> 1 + 1 / 1000" by blast
  from 1 2 QPnapsack_warm QPnapup_contract QPnapdown_contract z0 show ?thesis by blast
qed

text \<open>
  C2, as the claim states it for every input, fails: with \<open>y = [0.5]\<close>, \<open>a = [1]\<close>,
  \<open>lo = hi = 5\<close> and the initial lambda 0, case 2 searches downwards, the walk ends at
  lambda \<open>= -0.5\<close>, the final loop computes \<open>x = [1]\<close> with \<open>a'x = 1 < lo - 0.001\<close>, and
  \<open>checkatx\<close> ends the call in the assertion.
\<close>

theorem QPnapsack_range_counterexample:
  "dispatch QPnapup QPnapdown infeasible_arrays 1 5 5 0
     = (Case2_down, - 1 / 2, infeasible_arrays) \<and>
   replace_x (arr_x infeasible_arrays) 1 (arr_Gw infeasible_arrays) (- 1 / 2) = [1] \<and>
   atx_sum (Some (arr_Gw infeasible_arrays)) [1] (nat 1) = 1 \<and>
   QPnapsack QPnapup QPnapdown infeasible_arrays 1 5 5 0 = Inl AssertionFailed"
proof -
  have g: "starting_guess (arr_x infeasible_arrays) 1 5 5 (arr_Gw infeasible_arrays) 0
            (arr_FreeSet_status infeasible_arrays) = Inr 0"
    by (simp add: starting_guess_def infeasible_arrays_def)
  have r: "replace_x (arr_x infeasible_arrays) 1 (arr_Gw infeasible_arrays) (- 1 / 2) = [1]"
    by (simp add: infeasible_arrays_def replace_x_def clip_def Let_def)
  have a: "atx_sum (Some (arr_Gw infeasible_arrays)) [1] (nat 1) = 1"
    by (simp add: infeasible_arrays_def atx_sum_def weight_def)
  have c: "checkatx [1] (Some [1]) 1 5 5 = Inl AssertionFailed"
    by (simp add: checkatx_def checkatx_body_def ASSERT_def)
  have q: "QPnapsack QPnapup QPnapdown infeasible_arrays 1 5 5 0 = Inl AssertionFailed"
    using r by (simp add: QPnapsack_def g dispatch_infeasible) (simp add: infeasible_arrays_def c)
  from dispatch_infeasible r a q show ?thesis by simp
qed

text \<open>
  The same call ends in the assertion whatever the two searches return: no \<open>x\<close> in the
  box reaches \<open>a'x = 5\<close> with one unit weight.
\<close>

lemma QPnapsack_infeasible_example:
  "QPnapsack napup napdown
     \<lparr>arr_x = [1 / 2], arr_Gw = [1], arr_FreeSet_status = None,
      arr_w = [], arr_heap1 = [], arr_heap2 = []\<rparr> 1 5 5 0
   = Inl AssertionFailed"
proof -
  define M :: arrays where "M = \<lparr>arr_x = [1 / 2], arr_Gw = [1], arr_FreeSet_status = None,
      arr_w = [], arr_heap1 = [], arr_heap2 = []\<rparr>"
  have g: "starting_guess (arr_x M) 1 5 5 (arr_Gw M) 0 (arr_FreeSet_status M) = Inr 0"
    by (simp add: starting_guess_def M_def)
  obtain c l m1 where d: "dispatch napup napdown M 1 5 5 0 = (c, l, m1)"
    by (cases "dispatch napup napdown M 1 5 5 0") auto
  note f = dispatch_fields [OF d]
  have x: "replace_x (arr_x m1) 1 (arr_Gw m1) l = [clip (1 / 2 - l)]"
    by (simp add: f M_def replace_x_def clip_def Let_def)
  have "checkatx [clip (1 / 2 - l)] (Some [1]) 1 5 5 = Inl AssertionFailed"
    using clip_bounds(2) [of "1 / 2 - l"]
    by (simp add: checkatx_def checkatx_body_def ASSERT_def)
  then have "QPnapsack napup napdown M 1 5 5 0 = Inl AssertionFailed"
    by (simp add: QPnapsack_def g d x) (simp add: f M_def)
  then show ?thesis by (simp add: M_def)
qed

text \<open>
  C3, as the code has it. For weights \<open>a[k] \<ge> 1\<close>, bounds \<open>lo \<le> hi\<close> with \<open>0 \<le> hi\<close> and
  \<open>lo\<close> at most the sum of the weights, and two searches that meet their contract,
  \<open>QPnapsack\<close> returns a lambda with \<open>s(lambda) = hi\<close> if \<open>lambda > 0\<close> and
  \<open>s(lambda) = lo\<close> if \<open>lambda < 0\<close>, and with \<open>lo \<le> s(0) \<le> hi\<close> if \<open>lambda = 0\<close>.
  Whenever \<open>lo \<le> s(0) \<le> hi\<close>, the returned lambda is 0, or it is the starting lambda
  itself (the caller's, or the one the starting guess computed), which cases 1 and 2
  keep when the slope there already equals the bound; then \<open>s(lambda) = s(0)\<close>.
\<close>

theorem QPnapsack_multiplier:
  fixes m :: arrays and n :: int
  defines "s \<equiv> s_lambda (arr_x m) (arr_Gw m) (nat n)"
  assumes up: "napup_contract napup" and down: "napdown_contract napdown"
    and len: "nat n \<le> length (arr_x m)"
    and a: "\<forall>k < nat n. 1 \<le> arr_Gw m ! k"
    and lohi: "lo \<le> hi" and hi0: "0 \<le> hi" and lotot: "lo \<le> total_weight (arr_Gw m) (nat n)"
    and g: "starting_guess (arr_x m) n lo hi (arr_Gw m) Lambda (arr_FreeSet_status m) = Inr lam1"
  shows "\<exists>l m'. QPnapsack napup napdown m n lo hi Lambda = Inr (l, m') \<and>
           (0 < l \<longrightarrow> s l = hi) \<and> (l < 0 \<longrightarrow> s l = lo) \<and>
           (l = 0 \<longrightarrow> lo \<le> s 0 \<and> s 0 \<le> hi) \<and>
           (lo \<le> s 0 \<and> s 0 \<le> hi \<longrightarrow> l = 0 \<or> (l = lam1 \<and> s l = s 0))"
proof -
  have a0: "\<forall>k < nat n. 0 < arr_Gw m ! k"
  proof (intro allI impI)
    fix k assume "k < nat n"
    with a have "1 \<le> arr_Gw m ! k" by simp
    then show "0 < arr_Gw m ! k" by simp
  qed
  then have a1: "\<forall>k < nat n. 0 \<le> arr_Gw m ! k" by (simp add: less_imp_le)
  have mono: "s t \<le> s r" if "r \<le> t" for r t
    unfolding s_def using a1 that by (rule s_lambda_antimono)
  from QPnapsack_core [OF up down len a0 lohi hi0 lotot g, folded s_def]
  obtain l m' where r: "QPnapsack napup napdown m n lo hi Lambda = Inr (l, m')"
    and rng: "lo \<le> s l" "s l \<le> hi"
    and khi: "0 < l \<longrightarrow> s l = hi" and klo: "l < 0 \<longrightarrow> s l = lo"
    and z: "lo \<le> s 0 \<and> s 0 \<le> hi \<longrightarrow> l = 0 \<or> l = lam1"
    by blast
  from rng have z0: "l = 0 \<longrightarrow> lo \<le> s 0 \<and> s 0 \<le> hi" by auto
  have "s l = s 0" if "lo \<le> s 0" "s 0 \<le> hi" "l \<noteq> 0"
  proof (cases "0 < l")
    case True
    with khi mono [of 0 l] that show ?thesis by simp
  next
    case False
    with that have "l < 0" by simp
    with klo mono [of l 0] that show ?thesis by simp
  qed
  with r khi klo z z0 show ?thesis by blast
qed

theorem QPnapsack_multiplier_witness:
  "napup_contract QPnapup \<and> napdown_contract QPnapdown \<and>
   starting_guess (arr_x kept_arrays) 1 1 1 (arr_Gw kept_arrays) 1
     (arr_FreeSet_status kept_arrays) = Inr 1 \<and>
   (\<exists>l m'. QPnapsack QPnapup QPnapdown kept_arrays 1 1 1 1 = Inr (l, m') \<and>
      (0 < l \<longrightarrow> s_lambda (arr_x kept_arrays) (arr_Gw kept_arrays) (nat 1) l = 1) \<and>
      (l < 0 \<longrightarrow> s_lambda (arr_x kept_arrays) (arr_Gw kept_arrays) (nat 1) l = 1) \<and>
      (l = 0 \<longrightarrow> 1 \<le> s_lambda (arr_x kept_arrays) (arr_Gw kept_arrays) (nat 1) 0 \<and>
                s_lambda (arr_x kept_arrays) (arr_Gw kept_arrays) (nat 1) 0 \<le> 1) \<and>
      (1 \<le> s_lambda (arr_x kept_arrays) (arr_Gw kept_arrays) (nat 1) 0 \<and>
       s_lambda (arr_x kept_arrays) (arr_Gw kept_arrays) (nat 1) 0 \<le> 1 \<longrightarrow>
         l = 0 \<or>
         (l = 1 \<and>
          s_lambda (arr_x kept_arrays) (arr_Gw kept_arrays) (nat 1) l =
          s_lambda (arr_x kept_arrays) (arr_Gw kept_arrays) (nat 1) 0)))"
proof -
  have len: "nat 1 \<le> length (arr_x kept_arrays)"
    by (simp add: kept_arrays_def)
  have a: "\<forall>k < nat 1. 1 \<le> arr_Gw kept_arrays ! k"
    by (simp add: kept_arrays_def)
  have tot: "1 \<le> total_weight (arr_Gw kept_arrays) (nat 1)"
    by (simp add: total_weight_def kept_arrays_def)
  have g: "starting_guess (arr_x kept_arrays) 1 1 1 (arr_Gw kept_arrays) 1
     (arr_FreeSet_status kept_arrays) = Inr 1"
    by (simp add: starting_guess_def kept_arrays_def)
  from QPnapsack_multiplier [OF QPnapup_contract QPnapdown_contract len a _ _ tot g]
    QPnapup_contract QPnapdown_contract g
  show ?thesis by simp
qed

text \<open>
  C3, as the claim states it, fails in its last part: with \<open>y = [2]\<close>, \<open>a = [1]\<close>,
  \<open>lo = hi = 1\<close> and the initial lambda 1, \<open>s(0) = 1\<close> lies in \<open>[lo, hi]\<close>, but the slope
  at lambda = 1 is already \<open>hi\<close>, case 1 does nothing, and the call returns lambda = 1.
\<close>

theorem QPnapsack_zero_multiplier_counterexample:
  "s_lambda [2] [1] 1 0 = 1 \<and>
   QPnapsack QPnapup QPnapdown
     \<lparr>arr_x = [2], arr_Gw = [1], arr_FreeSet_status = None,
      arr_w = [], arr_heap1 = [], arr_heap2 = []\<rparr> 1 1 1 1
   = Inr (1, \<lparr>arr_x = [1], arr_Gw = [1], arr_FreeSet_status = None,
              arr_w = [], arr_heap1 = [], arr_heap2 = []\<rparr>)"
proof -
  define M :: arrays where "M = \<lparr>arr_x = [2], arr_Gw = [1], arr_FreeSet_status = None,
      arr_w = [], arr_heap1 = [], arr_heap2 = []\<rparr>"
  have s: "s_lambda [2] [1] (Suc 0) t = clip (2 - t)" for t
    by (simp add: s_lambda_def)
  have sl: "initial_slope [2] 1 [1] 1 = 1"
    by (simp add: initial_slope_eq s clip_def)
  have g: "starting_guess (arr_x M) 1 1 1 (arr_Gw M) 1 (arr_FreeSet_status M) = Inr 1"
    by (simp add: starting_guess_def M_def)
  have d: "dispatch QPnapup QPnapdown M 1 1 1 1 = (Case1_nothing, 1, M)"
    by (simp add: dispatch_def M_def sl)
  have rx: "replace_x [2] 1 [1] 1 = [1]"
    by (simp add: replace_x_def clip_def Let_def)
  have c: "checkatx [1] (Some [1]) 1 1 1 = Inr ()"
    by (simp add: checkatx_Inr_iff atx_sum_def weight_def)
  have "QPnapsack QPnapup QPnapdown M 1 1 1 1 = Inr (1, M\<lparr>arr_x := [1]\<rparr>)"
    by (simp add: QPnapsack_def g d) (simp add: M_def rx c)
  then show ?thesis by (simp add: M_def s clip_def)
qed

text \<open>
  C5. With \<open>n = 4\<close>, \<open>y = [0.6, 0.6, 0.6, 0.6]\<close>, unit weights, \<open>lo = hi = 2\<close>, the
  initial lambda 0 and no \<open>FreeSet_status\<close>, and with an upward search that meets its
  contract, \<open>QPnapsack\<close> returns lambda \<open>= 0.1\<close> and leaves \<open>x = [0.5, 0.5, 0.5, 0.5]\<close>.
\<close>

theorem QPnapsack_unit_test:
  assumes up: "napup_contract napup"
  shows "\<exists>m'. QPnapsack napup napdown
            \<lparr>arr_x = [3 / 5, 3 / 5, 3 / 5, 3 / 5], arr_Gw = [1, 1, 1, 1],
             arr_FreeSet_status = None, arr_w = w, arr_heap1 = h1, arr_heap2 = h2\<rparr> 4 2 2 0
           = Inr (1 / 10, m') \<and>
         arr_x m' = [1 / 2, 1 / 2, 1 / 2, 1 / 2]"
proof -
  let ?y = "[3 / 5, 3 / 5, 3 / 5, 3 / 5] :: real list"
  let ?a = "[1, 1, 1, 1] :: real list"
  define M where "M = \<lparr>arr_x = ?y, arr_Gw = ?a,
             arr_FreeSet_status = None, arr_w = w, arr_heap1 = h1, arr_heap2 = h2\<rparr>"
  obtain r w' h1' h2' where n: "napup ?y 4 0 ?a 2 w h1 h2 = (r, w', h1', h2')"
    by (cases "napup ?y 4 0 ?a 2 w h1 h2") auto
  have "\<forall>k < nat 4. 0 < ?a ! k"
    by (simp add: less_Suc_eq eval_nat_numeral)
  moreover have "(2::real) < s_lambda ?y ?a (nat 4) 0"
    by (simp add: s_lambda_unit_test clip_def)
  ultimately have "s_lambda ?y ?a (nat 4) (fst (napup ?y 4 0 ?a 2 w h1 h2)) = 2"
    using up unfolding napup_contract_def by (metis zero_le_numeral)
  then have "4 * clip (3 / 5 - r) = 2"
    by (simp add: n s_lambda_unit_test)
  then have r: "r = 1 / 10"
    by (simp add: clip_def split: if_splits)
  have sl: "initial_slope ?y 4 ?a 0 = 12 / 5"
    by (simp add: initial_slope_eq s_lambda_unit_test clip_def)
  have d: "dispatch napup napdown M 4 2 2 0
         = (Case1_up, 1 / 10, M\<lparr>arr_w := w', arr_heap1 := h1', arr_heap2 := h2'\<rparr>)"
    by (simp add: dispatch_def M_def sl call_nap_def n r MONGOOSE_MAX2_def)
  have g: "starting_guess (arr_x M) 4 2 2 (arr_Gw M) 0 (arr_FreeSet_status M) = Inr 0"
    by (simp add: starting_guess_def M_def)
  have rx: "replace_x ?y 4 ?a (1 / 10) = [1 / 2, 1 / 2, 1 / 2, 1 / 2]"
    by (simp add: replace_x_def upt_4 clip_def Let_def)
  have c: "checkatx [1 / 2, 1 / 2, 1 / 2, 1 / 2] (Some ?a) 4 2 2 = Inr ()"
    by (simp add: checkatx_Inr_iff atx_sum_def weight_def upt_4 less_Suc_eq eval_nat_numeral)
  have "QPnapsack napup napdown M 4 2 2 0
      = Inr (1 / 10, M\<lparr>arr_w := w', arr_heap1 := h1', arr_heap2 := h2',
                          arr_x := [1 / 2, 1 / 2, 1 / 2, 1 / 2]\<rparr>)"
    by (simp add: QPnapsack_def g d) (simp add: M_def rx c)
  then show ?thesis unfolding M_def by simp
qed

theorem QPnapsack_unit_test_witness:
  "napup_contract QPnapup \<and>
   (\<exists>m'. QPnapsack QPnapup QPnapdown
            \<lparr>arr_x = [3 / 5, 3 / 5, 3 / 5, 3 / 5], arr_Gw = [1, 1, 1, 1],
             arr_FreeSet_status = None, arr_w = [], arr_heap1 = [], arr_heap2 = []\<rparr> 4 2 2 0
           = Inr (1 / 10, m') \<and>
         arr_x m' = [1 / 2, 1 / 2, 1 / 2, 1 / 2])"
  using QPnapsack_unit_test [OF QPnapup_contract, of QPnapdown "[]" "[]" "[]"] QPnapup_contract
  by simp

text \<open>
  C6. On every branch whose search targets \<open>hi\<close> (cases 1, 3b, 4a, 4d) the returned
  lambda is \<open>\<ge> 0\<close>, and on every branch whose search targets \<open>lo\<close> (cases 2, 3a, 4b,
  3d) it is \<open>\<le> 0\<close>, whatever the searches return: the result is clamped at zero.
\<close>

theorem QPnapsack_sign:
  assumes "QPnapsack napup napdown m n lo hi Lambda = Inr (l, m')"
    and "QPnapsack_case napup napdown m n lo hi Lambda = Inr c"
  shows "(c \<in> {Case1_up, Case3b_down, Case4a_up, Case4d_up} \<longrightarrow> 0 \<le> l) \<and>
         (c \<in> {Case2_down, Case3a_down, Case4b_up, Case3d_down} \<longrightarrow> l \<le> 0)"
proof -
  from assms(1) obtain lam1 c1 m1 where
    g: "starting_guess (arr_x m) n lo hi (arr_Gw m) Lambda (arr_FreeSet_status m) = Inr lam1"
    and d: "dispatch napup napdown m n lo hi lam1 = (c1, l, m1)"
    by (rule QPnapsack_InrD)
  from assms(2) g d have "c = c1" by (simp add: QPnapsack_case_def)
  with dispatch_sign [OF d] show ?thesis by simp
qed

theorem QPnapsack_sign_witness:
  "QPnapsack QPnapup QPnapdown example_arrays 2 1 1 0
     = Inr (1 / 10, example_arrays\<lparr>arr_x := [1 / 2, 1 / 2]\<rparr>) \<and>
   QPnapsack_case QPnapup QPnapdown example_arrays 2 1 1 0 = Inr Case1_up \<and>
   (0 :: real) \<le> 1 / 10"
proof -
  have g: "starting_guess (arr_x example_arrays) 2 1 1 (arr_Gw example_arrays) 0
     (arr_FreeSet_status example_arrays) = Inr 0"
    by (simp add: starting_guess_def example_arrays_def)
  have c: "QPnapsack_case QPnapup QPnapdown example_arrays 2 1 1 0 = Inr Case1_up"
    by (simp add: QPnapsack_case_def g dispatch_example)
  from QPnapsack_sign [OF QPnapsack_example c] QPnapsack_example c
  show ?thesis by simp
qed

text \<open>
  C9. The starting guess runs only when \<open>FreeSet_status\<close> is not \<open>NULL\<close> and the
  initial lambda is not zero; it divides \<open>asum\<close> by \<open>a2sum\<close> only when \<open>a2sum\<close> is not
  zero, so no call divides by zero; and when no \<open>k < n\<close> has \<open>FreeSet_status[k] = 0\<close>,
  the caller's lambda is kept.
\<close>

theorem starting_guess_division_guarded:
  "(\<exists>l. starting_guess x n lo hi Gw Lambda FreeSet_status = Inr l) \<and>
   (FreeSet_status = None \<or> Lambda = 0 \<longrightarrow>
      starting_guess x n lo hi Gw Lambda FreeSet_status = Inr Lambda) \<and>
   ((\<forall>k < nat n. fs ! k \<noteq> 0) \<longrightarrow> starting_guess x n lo hi Gw Lambda (Some fs) = Inr Lambda) \<and>
   QPnapsack napup napdown m n lo hi Lambda \<noteq> Inl DivisionByZero"
proof -
  have 1: "\<exists>l. starting_guess x n lo hi Gw Lambda FreeSet_status = Inr l"
    by (rule starting_guess_total)
  have 2: "FreeSet_status = None \<or> Lambda = 0 \<longrightarrow>
      starting_guess x n lo hi Gw Lambda FreeSet_status = Inr Lambda"
    by (auto simp: starting_guess_def split: option.splits)
  have 3: "starting_guess x n lo hi Gw Lambda (Some fs) = Inr Lambda"
    if "\<forall>k < nat n. fs ! k \<noteq> 0"
  proof -
    from that have "\<forall>k \<in> set [0..<nat n]. fs ! k \<noteq> 0" by simp
    then have "snd (fold (guess_body x Gw fs) [0..<nat n] (s, 0)) = 0" for s
      by (rule fold_guess_body_snd)
    then have "\<exists>t. fold (guess_body x Gw fs) [0..<nat n] (s, 0) = (t, 0)" for s
      by (metis prod.collapse)
    then obtain t where
      "fold (guess_body x Gw fs) [0..<nat n] (if Lambda > 0 then - hi else - lo, 0) = (t, 0)"
      by blast
    then show ?thesis
      by (simp add: starting_guess_def)
  qed
  obtain l1 where "starting_guess (arr_x m) n lo hi (arr_Gw m) Lambda (arr_FreeSet_status m) = Inr l1"
    using starting_guess_total by blast
  then have 4: "QPnapsack napup napdown m n lo hi Lambda \<noteq> Inl DivisionByZero"
    by (auto simp: QPnapsack_def Let_def checkatx_def ASSERT_def split: prod.splits sum.splits)
  from 1 2 3 4 show ?thesis by blast
qed

theorem starting_guess_division_guarded_witness:
  "starting_guess [3 / 5, 3 / 5] 2 1 1 [1, 1] 1 (Some [1, - 1]) = Inr 1 \<and>
   starting_guess [3 / 5, 3 / 5] 2 1 1 [1, 1] 0 (Some [0, 1]) = Inr 0 \<and>
   starting_guess [3 / 5, 3 / 5] 2 1 1 [1, 1] 1 (Some [0, 1]) = Inr (3 / 5)"
proof -
  have "\<forall>k < nat 2. [1, - 1 :: int] ! k \<noteq> 0"
    by (simp add: less_Suc_eq numeral_2_eq_2)
  with starting_guess_division_guarded
    [of "[3 / 5, 3 / 5]" 2 1 1 "[1, 1]" 1 "Some [1, - 1]" "[1, - 1]" QPnapup QPnapdown example_arrays]
  have 1: "starting_guess [3 / 5, 3 / 5] 2 1 1 [1, 1] 1 (Some [1, - 1]) = Inr 1"
    by blast
  from starting_guess_division_guarded
    [of "[3 / 5, 3 / 5]" 2 1 1 "[1, 1]" 0 "Some [0, 1]" "[0, 1]" QPnapup QPnapdown example_arrays]
  have 2: "starting_guess [3 / 5, 3 / 5] 2 1 1 [1, 1] 0 (Some [0, 1]) = Inr 0"
    by blast
  have 3: "starting_guess [3 / 5, 3 / 5] 2 1 1 [1, 1] 1 (Some [0, 1]) = Inr (3 / 5)"
    by (simp add: starting_guess_def guess_body_def divide_checked_def upt_2)
  from 1 2 3 show ?thesis by simp
qed

text \<open>
  C10. On return the arrays \<open>FreeSet_status\<close> and \<open>Gw\<close> are as they were: of the six
  arrays only \<open>x\<close>, \<open>w\<close>, \<open>heap1\<close> and \<open>heap2\<close> can differ, so putting their old contents
  back gives the memory of the call's start. The scalars \<open>n\<close>, \<open>lo\<close> and \<open>hi\<close> are passed
  by value.
\<close>

theorem QPnapsack_frame:
  assumes "QPnapsack napup napdown m n lo hi Lambda = Inr (l, m')"
  shows "arr_FreeSet_status m' = arr_FreeSet_status m \<and> arr_Gw m' = arr_Gw m \<and>
         m'\<lparr>arr_x := arr_x m, arr_w := arr_w m, arr_heap1 := arr_heap1 m,
            arr_heap2 := arr_heap2 m\<rparr> = m"
proof -
  from assms obtain lam1 c m1 where
    d: "dispatch napup napdown m n lo hi lam1 = (c, l, m1)"
    and m': "m' = m1\<lparr>arr_x := replace_x (arr_x m1) n (arr_Gw m1) l\<rparr>"
    by (rule QPnapsack_InrD)
  from dispatch_frame [OF d] dispatch_fields [OF d] show ?thesis
    unfolding m' by (cases m1; cases m) simp
qed

theorem QPnapsack_frame_witness:
  "QPnapsack QPnapup QPnapdown example_arrays 2 1 1 0
     = Inr (1 / 10, example_arrays\<lparr>arr_x := [1 / 2, 1 / 2]\<rparr>) \<and>
   arr_FreeSet_status (example_arrays\<lparr>arr_x := [1 / 2, 1 / 2]\<rparr>)
     = arr_FreeSet_status example_arrays \<and>
   arr_Gw (example_arrays\<lparr>arr_x := [1 / 2, 1 / 2]\<rparr>) = arr_Gw example_arrays"
  using QPnapsack_frame [OF QPnapsack_example] QPnapsack_example
  by simp

section \<open>The claim about the cut metrics\<close>

lemma sum_list_filter_split:
  fixes f :: "nat \<Rightarrow> real"
  shows "sum_list (map f (filter P ks)) + sum_list (map f (filter (\<lambda>v. \<not> P v) ks))
       = sum_list (map f ks)"
  by (induction ks) simp_all

lemma sum_list_positive:
  fixes f :: "nat \<Rightarrow> real"
  assumes "ks \<noteq> []" "\<forall>k \<in> set ks. 0 < f k"
  shows "0 < sum_list (map f ks)"
proof (cases ks)
  case Nil
  with assms show ?thesis by simp
next
  case (Cons k ks')
  with assms have k: "0 < f k" and r: "\<forall>x \<in> set (map f ks'). 0 \<le> x"
    by (auto intro: less_imp_le)
  from r have "0 \<le> sum_list (map f ks')" by (intro sum_list_nonneg) auto
  with k Cons show ?thesis by simp
qed

lemma side_weights_positive:
  assumes "part \<noteq> []" "\<forall>v < length part. 0 < w ! v"
  shows "0 < side_weight part w False + side_weight part w True"
proof -
  have "side_weight part w False + side_weight part w True
      = sum_list (map (\<lambda>v. w ! v) [0..<length part])"
    using sum_list_filter_split [of "\<lambda>v. w ! v" "\<lambda>v. part ! v = False" "[0..<length part]"]
    by (simp add: side_weight_def)
  moreover have "0 < sum_list (map (\<lambda>v. w ! v) [0..<length part])"
    using assms by (intro sum_list_positive) simp_all
  ultimately show ?thesis by simp
qed

text \<open>
  C8. The \<open>imbalance\<close> of a partition result is \<open>|0.5 - W0 / (W0 + W1)|\<close> and is never
  negative; for a partition of at least one vertex with positive vertex weights it is
  zero exactly when \<open>W0 = W1\<close>.
\<close>

theorem imbalance_abs:
  "imbalance (metrics_of part w)
     = \<bar>1 / 2 - W0 (metrics_of part w) / (W0 (metrics_of part w) + W1 (metrics_of part w))\<bar> \<and>
   0 \<le> imbalance (metrics_of part w) \<and>
   (part \<noteq> [] \<and> (\<forall>v < length part. 0 < w ! v) \<longrightarrow>
      (imbalance (metrics_of part w) = 0 \<longleftrightarrow>
         W0 (metrics_of part w) = W1 (metrics_of part w)))"
proof -
  define u where "u = side_weight part w False"
  define v where "v = side_weight part w True"
  have m: "metrics_of part w = \<lparr>W0 = u, W1 = v, imbalance = \<bar>1 / 2 - u / (u + v)\<bar>\<rparr>"
    by (simp add: metrics_of_def u_def v_def Let_def)
  have "1 / 2 - u / (u + v) = 0 \<longleftrightarrow> u = v"
    if "part \<noteq> []" "\<forall>v < length part. 0 < w ! v"
  proof -
    have "0 < u + v"
      unfolding u_def v_def using that by (rule side_weights_positive)
    then show ?thesis by (auto simp: field_simps)
  qed
  then show ?thesis by (simp add: m)
qed

theorem imbalance_abs_witness:
  "imbalance (metrics_of [False, True] [1, 1]) = 0 \<and>
   W0 (metrics_of [False, True] [1, 1]) = W1 (metrics_of [False, True] [1, 1]) \<and>
   imbalance (metrics_of [False, False, True] [1, 1, 1]) = 1 / 6"
proof -
  have p: "[False, True] \<noteq> []" by simp
  have w: "\<forall>v < length [False, True]. 0 < [1, 1 :: real] ! v"
    by (simp add: less_Suc_eq numeral_2_eq_2)
  have e: "W0 (metrics_of [False, True] [1, 1]) = W1 (metrics_of [False, True] [1, 1])"
    by (simp add: metrics_of_def side_weight_def upt_rec)
  have i: "imbalance (metrics_of [False, False, True] [1, 1, 1]) = 1 / 6"
    by (simp add: metrics_of_def side_weight_def upt_rec)
  from imbalance_abs [of "[False, True]" "[1, 1]"] p w e i show ?thesis by simp
qed

end
